theory Spec2Isabelle
  imports Main
begin

section \<open>The knowledge-base ingestion pipeline (src/pipeline.ts)\<close>

text \<open>
  The pipeline loads Markdown files, cuts them into sections and chunks, gives every chunk
  a positional identifier, embeds the chunk texts in batches and upserts the resulting points
  in batches. The functions below follow \<^verbatim>\<open>src/pipeline.ts\<close> one by one. The libraries
  the file imports (\<^verbatim>\<open>uuid\<close>, \<^verbatim>\<open>node:path\<close>, \<^verbatim>\<open>llamaindex\<close>, the OpenAI and Qdrant
  clients) are parameters of the model, collected in the record \<open>deps\<close>.
\<close>

subsection \<open>Strings\<close>

text \<open>
  A JavaScript string is modelled as a \<open>string\<close>, one \<open>char\<close> per code unit below 256.
  \<^verbatim>\<open>String.prototype.trim\<close> removes white space and line terminators from both ends; in
  the modelled range these are TAB, LF, VT, FF, CR, SPACE and NBSP.
\<close>

definition isWhiteSpace :: "char \<Rightarrow> bool" where
  "isWhiteSpace c = (of_char c \<in> {9, 10, 11, 12, 13, 32, 160 :: nat})"

definition trim :: "string \<Rightarrow> string" where
  "trim s = rev (dropWhile isWhiteSpace (rev (dropWhile isWhiteSpace s)))"

text \<open>
  A template literal renders a non-negative integer in decimal (the counters of the pipeline
  stay far below \<open>10\<^sup>2\<^sup>1\<close>, where JavaScript switches to exponent notation).
\<close>

definition digit :: "nat \<Rightarrow> char" where
  "digit k = ''0123456789'' ! k"

function dec :: "nat \<Rightarrow> string" where
  "dec n = (if n < 10 then [digit n] else dec (n div 10) @ [digit (n mod 10)])"
  by pat_completeness auto
termination
  by (relation "measure (\<lambda>n. n)") auto

declare dec.simps [simp del]

subsection \<open>Configuration\<close>

definition KB_DIR :: string where
  "KB_DIR = ''./assets''"

definition COLLECTION :: string where
  "COLLECTION = ''kb_docs_v1''"

definition EMBED_BATCH :: int where
  "EMBED_BATCH = 128"

definition UPSERT_BATCH :: int where
  "UPSERT_BATCH = 2000"

subsection \<open>stableId\<close>

text \<open>
  \<^verbatim>\<open>stableId\<close> receives an object with the fields path, sectionIndex, chunkIndex and text
  (here: four arguments), builds the name \<^verbatim>\<open>`${path}|s${sectionIndex}|c${chunkIndex}`\<close>
  and hashes it with \<^verbatim>\<open>v5\<close> of the \<^verbatim>\<open>uuid\<close> package under a fixed namespace. The hash
  function is a parameter of the model.
\<close>

definition BASE_NS :: string where
  "BASE_NS = ''6f1a73a1-8d1b-4c31-9b00-1c4c2e0f9b12''"

definition id_name :: "string \<Rightarrow> nat \<Rightarrow> nat \<Rightarrow> string" where
  "id_name path sectionIndex chunkIndex = path @ ''|s'' @ dec sectionIndex @ ''|c'' @ dec chunkIndex"

definition stableId :: "(string \<Rightarrow> string \<Rightarrow> string) \<Rightarrow> string \<Rightarrow> nat \<Rightarrow> nat \<Rightarrow> string \<Rightarrow> string" where
  "stableId v5 path sectionIndex chunkIndex text = (let name = id_name path sectionIndex chunkIndex in v5 name BASE_NS)"

subsection \<open>chunkArray\<close>

text \<open>
  \<^verbatim>\<open>Array.prototype.slice\<close> with integer arguments: a negative index counts from the end,
  both indices are clamped to the array, and the result is empty when the end does not lie
  after the start.
\<close>

definition slice :: "'a list \<Rightarrow> int \<Rightarrow> int \<Rightarrow> 'a list" where
  "slice arr start end' =
     (let len = int (length arr);
          k = (if start < 0 then max (len + start) 0 else min start len);
          final = (if end' < 0 then max (len + end') 0 else min end' len)
      in take (nat (final - k)) (drop (nat k) arr))"

text \<open>
  The \<^verbatim>\<open>for\<close> loop of \<^verbatim>\<open>chunkArray\<close> steps \<open>i\<close> by \<open>size\<close>, which is any integer, so the
  loop need not end: its model returns \<open>None\<close> when it runs forever.
\<close>

partial_function (option) chunkArray_loop :: "'a list \<Rightarrow> int \<Rightarrow> int \<Rightarrow> 'a list list \<Rightarrow> 'a list list option" where
  "chunkArray_loop arr size' i out =
     (if i < int (length arr) then chunkArray_loop arr size' (i + size') (out @ [slice arr i (i + size')])
      else Some out)"

definition chunkArray :: "'a list \<Rightarrow> int \<Rightarrow> 'a list list option" where
  "chunkArray arr size' = chunkArray_loop arr size' 0 []"

subsection \<open>Nodes, chunks, points\<close>

text \<open>
  A \<^verbatim>\<open>TextNode\<close> (and a \<^verbatim>\<open>Document\<close>) of llamaindex carries a text and a metadata object.
  The metadata the libraries hand over is a bag of string entries; \<^verbatim>\<open>getText\<close> reads the
  text of the node. (The library may hand the text back trimmed. Every text that \<^verbatim>\<open>main\<close>
  reads through \<^verbatim>\<open>getText\<close> is trimmed by \<^verbatim>\<open>main\<close> itself, before or after the read, and
  \<open>trim\<close> is idempotent; only the text handed on to the splitter and to
  \<^verbatim>\<open>inferSectionTitle\<close>, both parameters here, could differ by outer white space.)
\<close>

record node =
  text' :: string
  metadata :: "string \<rightharpoonup> string"

definition getText :: "'a node_scheme \<Rightarrow> string" where
  "getText n = text' n"

text \<open>
  The main loop replaces the metadata of a chunk by
  \<^verbatim>\<open>{...c.metadata, path, fileName, sectionTitle, sectionAnchor, sectionIndex, chunkIndex, source}\<close>:
  the entries written last win over entries of the same name in the inherited bag. A chunk
  is therefore a node with these seven typed fields on top of its bag. A payload
  \<^verbatim>\<open>{text, ...c.metadata}\<close> has the same shape.
\<close>

record chunk = node +
  path :: string
  fileName :: string
  sectionTitle :: string
  sectionAnchor :: string
  sectionIndex :: nat
  chunkIndex :: nat
  source :: string

record 'v point =
  id' :: string
  vector :: 'v
  payload :: chunk

subsection \<open>Errors, the outside world, and the trace of a run\<close>

datatype error =
    Failure string
  | SizeMismatch nat nat
  | Misalignment nat nat
  | Undefined

text \<open>
  \<open>Failure\<close> is a rejection of a file-system, embedding or vector-store call;
  \<open>SizeMismatch got expected\<close> and \<open>Misalignment vectors chunks\<close> are the two errors
  \<^verbatim>\<open>main\<close> throws itself; \<open>Undefined\<close> is \<^verbatim>\<open>throw lastErr\<close> with nothing caught before.

  A run records what it does to the outside: console output, sleeps, and every call of the
  embedding provider and of the vector store together with its outcome.
\<close>

datatype 'v event =
    Warn string
  | Sleep nat
  | EmbedCall "string list" "error + 'v list option"
  | UpsertCall string "'v point list" "error + unit"
  | ConsoleError error
  | ConsoleLog string

record ('w, 'v) run =
  world :: 'w
  trace :: "'v event list"

text \<open>
  The imported libraries. The embedding provider and the vector store act on a world state
  \<open>'w\<close>; a response of the provider is its \<^verbatim>\<open>data\<close> array (one embedding per entry), or
  \<open>None\<close> when the response has no \<^verbatim>\<open>data\<close>. \<^verbatim>\<open>inferSectionTitle\<close> and \<^verbatim>\<open>slugify\<close> only
  fill the title and the anchor of a chunk with the help of regular expressions; they are
  carried as parameters as well.
\<close>

record ('w, 'v) deps =
  v5 :: "string \<Rightarrow> string \<Rightarrow> string"
  extname :: "string \<Rightarrow> string"
  parse_name :: "string \<Rightarrow> string"
  markdownNodeParser :: "node list \<Rightarrow> node list"
  sentenceSplitter :: "node list \<Rightarrow> node list"
  inferSectionTitle :: "string \<Rightarrow> string \<Rightarrow> string"
  slugify :: "string \<Rightarrow> string"
  embeddings_create :: "'w \<Rightarrow> string list \<Rightarrow> (error + 'v list option) \<times> 'w"
  upsert :: "'w \<Rightarrow> string \<Rightarrow> 'v point list \<Rightarrow> (error + unit) \<times> 'w"

definition console_warn :: "string \<Rightarrow> ('w, 'v) run \<Rightarrow> ('w, 'v) run" where
  "console_warn msg s = s\<lparr>trace := trace s @ [Warn msg]\<rparr>"

definition console_log :: "string \<Rightarrow> ('w, 'v) run \<Rightarrow> ('w, 'v) run" where
  "console_log msg s = s\<lparr>trace := trace s @ [ConsoleLog msg]\<rparr>"

definition console_error :: "error \<Rightarrow> ('w, 'v) run \<Rightarrow> ('w, 'v) run" where
  "console_error e s = s\<lparr>trace := trace s @ [ConsoleError e]\<rparr>"

definition setTimeout :: "nat \<Rightarrow> ('w, 'v) run \<Rightarrow> ('w, 'v) run" where
  "setTimeout wait s = s\<lparr>trace := trace s @ [Sleep wait]\<rparr>"

subsection \<open>loadMarkdownDocs\<close>

text \<open>
  The directory is what \<^verbatim>\<open>fs.readdir\<close> returns (or its rejection); an entry carries what
  \<^verbatim>\<open>fs.readFile\<close> returns for it.
\<close>

record dirent =
  name :: string
  isFile :: bool
  contents :: "error + string"

fun loadMarkdownDocs_loop :: "(string \<Rightarrow> string) \<Rightarrow> dirent list \<Rightarrow> node list \<Rightarrow> error + node list" where
  "loadMarkdownDocs_loop ext [] docs = Inr docs"
| "loadMarkdownDocs_loop ext (entry # entries) docs =
     (if \<not> isFile entry then loadMarkdownDocs_loop ext entries docs
      else if ext (name entry) \<noteq> ''.md'' then loadMarkdownDocs_loop ext entries docs
      else (case contents entry of
              Inl e \<Rightarrow> Inl e
            | Inr text \<Rightarrow>
                loadMarkdownDocs_loop ext entries
                  (docs @ [\<lparr>text' = text,
                             metadata = [''path'' \<mapsto> name entry, ''fileName'' \<mapsto> name entry, ''ext'' \<mapsto> ''.md'']\<rparr>])))"

definition loadMarkdownDocs :: "('w, 'v) deps \<Rightarrow> error + dirent list \<Rightarrow> error + node list" where
  "loadMarkdownDocs D dir =
     (case dir of Inl e \<Rightarrow> Inl e | Inr entries \<Rightarrow> loadMarkdownDocs_loop (extname D) entries [])"

subsection \<open>splitSection\<close>

definition splitSection :: "(node list \<Rightarrow> node list) \<Rightarrow> node \<Rightarrow> node list" where
  "splitSection splitter sectionNode =
     (let doc = \<lparr>text' = getText sectionNode, metadata = metadata sectionNode\<rparr>;
          chunkNodes = splitter [doc];
          chunkNodes = map (\<lambda>n. let n = n\<lparr>metadata := metadata sectionNode ++ metadata n\<rparr>
                                  in n\<lparr>text' := trim (getText n)\<rparr>) chunkNodes
      in filter (\<lambda>n. length (getText n) > 0) chunkNodes)"

subsection \<open>withRetry\<close>

function withRetry_loop ::
  "(('w, 'v) run \<Rightarrow> (error + 'a) \<times> ('w, 'v) run) \<Rightarrow> string \<Rightarrow> nat \<Rightarrow> nat \<Rightarrow> error option \<Rightarrow> ('w, 'v) run
     \<Rightarrow> (error + 'a) \<times> ('w, 'v) run" where
  "withRetry_loop fn label tries attempt lastErr s =
     (if attempt < tries then
        (case fn s of
           (Inr r, s) \<Rightarrow> (Inr r, s)
         | (Inl e, s) \<Rightarrow>
             (let lastErr = Some e;
                  wait = min (2000 * 2 ^ attempt) 15000;
                  s = console_warn (''['' @ label @ ''] attempt '' @ dec (attempt + 1)
                                      @ '' failed; retrying in '' @ dec wait @ ''ms'') s;
                  s = setTimeout wait s
              in withRetry_loop fn label tries (attempt + 1) lastErr s))
      else (Inl (case lastErr of None \<Rightarrow> Undefined | Some e \<Rightarrow> e), s))"
  by pat_completeness auto
termination
  by (relation "measure (\<lambda>(fn, label, tries, attempt, lastErr, s). tries - attempt)") auto

declare withRetry_loop.simps [simp del]

definition withRetry ::
  "(('w, 'v) run \<Rightarrow> (error + 'a) \<times> ('w, 'v) run) \<Rightarrow> string \<Rightarrow> nat \<Rightarrow> ('w, 'v) run \<Rightarrow> (error + 'a) \<times> ('w, 'v) run" where
  "withRetry fn label tries s = withRetry_loop fn label tries 0 None s"

text \<open>Both call sites leave out the third argument, so \<^verbatim>\<open>tries\<close> is its default, 4.\<close>

definition embed_call :: "('w, 'v) deps \<Rightarrow> string list \<Rightarrow> ('w, 'v) run \<Rightarrow> (error + 'v list option) \<times> ('w, 'v) run" where
  "embed_call D slice' s =
     (case embeddings_create D (world s) slice' of
        (res, w) \<Rightarrow> (res, s\<lparr>world := w, trace := trace s @ [EmbedCall slice' res]\<rparr>))"

definition upsert_call :: "('w, 'v) deps \<Rightarrow> 'v point list \<Rightarrow> ('w, 'v) run \<Rightarrow> (error + unit) \<times> ('w, 'v) run" where
  "upsert_call D points s =
     (case upsert D (world s) COLLECTION points of
        (res, w) \<Rightarrow> (res, s\<lparr>world := w, trace := trace s @ [UpsertCall COLLECTION points res]\<rparr>))"

subsection \<open>main: sections and chunks\<close>

text \<open>The inner loop of step 2, over the parts of one section.\<close>

fun chunk_loop :: "string \<Rightarrow> string \<Rightarrow> string \<Rightarrow> string \<Rightarrow> nat \<Rightarrow> node list \<Rightarrow> nat \<Rightarrow> chunk list \<Rightarrow> chunk list" where
  "chunk_loop filePath fileName' sectionTitle' sectionAnchor' sectionIndex' [] chunkIndex' chunks = chunks"
| "chunk_loop filePath fileName' sectionTitle' sectionAnchor' sectionIndex' (c # parts) chunkIndex' chunks =
     (let chunkIndex' = chunkIndex' + 1;
          raw = trim (getText c);
          c = c\<lparr>text' := fileName' @ ''||'' @ raw\<rparr>;
          c = \<lparr>text' = text' c, metadata = metadata c,
               path = filePath, fileName = fileName', sectionTitle = sectionTitle',
               sectionAnchor = sectionAnchor', sectionIndex = sectionIndex',
               chunkIndex = chunkIndex', source = ''kb''\<rparr>;
          c = c\<lparr>text' := trim (getText c)\<rparr>
      in chunk_loop filePath fileName' sectionTitle' sectionAnchor' sectionIndex' parts chunkIndex'
           (if length (text' c) > 0 then chunks @ [c] else chunks))"

text \<open>The outer loop of step 2, over the sections, with the counter map \<^verbatim>\<open>perFileSection\<close>.\<close>

fun section_loop :: "('w, 'v) deps \<Rightarrow> node list \<Rightarrow> (string \<rightharpoonup> nat) \<Rightarrow> chunk list \<Rightarrow> chunk list" where
  "section_loop D [] perFileSection chunks = chunks"
| "section_loop D (sec # sections) perFileSection chunks =
     (let filePath = (case metadata sec ''path'' of Some p \<Rightarrow> p | None \<Rightarrow> ''unknown.md'');
          fileName' = parse_name D filePath;
          sectionTitle' = inferSectionTitle D (getText sec) filePath;
          sectionAnchor' = slugify D sectionTitle';
          sectionIndex' = (case perFileSection filePath of Some k \<Rightarrow> k | None \<Rightarrow> 0) + 1;
          perFileSection = perFileSection(filePath \<mapsto> sectionIndex');
          parts = splitSection (sentenceSplitter D) sec;
          chunks = chunk_loop filePath fileName' sectionTitle' sectionAnchor' sectionIndex' parts 0 chunks
      in section_loop D sections perFileSection chunks)"

subsection \<open>main: embedding, points, upsert\<close>

function embed_loop ::
  "('w, 'v) deps \<Rightarrow> string list list \<Rightarrow> nat \<Rightarrow> 'v list \<Rightarrow> ('w, 'v) run \<Rightarrow> (error + 'v list) \<times> ('w, 'v) run" where
  "embed_loop D textBatches b vectors s =
     (if b < length textBatches then
        (let slice' = textBatches ! b in
         case withRetry (embed_call D slice')
                (''embed-batch-'' @ dec (b + 1) @ ''/'' @ dec (length textBatches)) 4 s of
           (Inl e, s) \<Rightarrow> (Inl e, s)
         | (Inr res, s) \<Rightarrow>
             (case res of
                None \<Rightarrow> (Inl (SizeMismatch 0 (length slice')), s)
              | Some data \<Rightarrow>
                  if length data \<noteq> length slice'
                  then (Inl (SizeMismatch (length data) (length slice')), s)
                  else embed_loop D textBatches (b + 1) (vectors @ data) s))
      else (Inr vectors, s))"
  by pat_completeness auto
termination
  by (relation "measure (\<lambda>(D, textBatches, b, vectors, s). length textBatches - b)") auto

declare embed_loop.simps [simp del]

text \<open>
  Step 4. The payload is \<^verbatim>\<open>{text: c.getText(), ...(c.metadata ?? {})}\<close>: an entry named
  \<^verbatim>\<open>text\<close> in the inherited bag would replace the text of the chunk. \<^verbatim>\<open>vectors[i]\<close> is
  read after the check that both arrays have the same length.
\<close>

definition payload_of :: "chunk \<Rightarrow> chunk" where
  "payload_of c = c\<lparr>text' := (case metadata c ''text'' of Some t \<Rightarrow> t | None \<Rightarrow> getText c)\<rparr>"

definition allPoints :: "('w, 'v) deps \<Rightarrow> chunk list \<Rightarrow> 'v list \<Rightarrow> 'v point list" where
  "allPoints D chunks vectors =
     map (\<lambda>i. let c = chunks ! i; payload' = payload_of c
               in \<lparr>id' = stableId (v5 D) (path payload') (sectionIndex payload') (chunkIndex payload') (text' payload'),
                   vector = vectors ! i,
                   payload = payload'\<rparr>)
         [0..<length chunks]"

function upsert_loop ::
  "('w, 'v) deps \<Rightarrow> 'v point list list \<Rightarrow> nat \<Rightarrow> nat \<Rightarrow> ('w, 'v) run \<Rightarrow> (error + nat) \<times> ('w, 'v) run" where
  "upsert_loop D pointBatches i upserted s =
     (if i < length pointBatches then
        (case withRetry (upsert_call D (pointBatches ! i))
                (''upsert-'' @ dec (i + 1) @ ''/'' @ dec (length pointBatches)) 4 s of
           (Inl e, s) \<Rightarrow> (Inl e, s)
         | (Inr u, s) \<Rightarrow> upsert_loop D pointBatches (i + 1) (upserted + length (pointBatches ! i)) s)
      else (Inr upserted, s))"
  by pat_completeness auto
termination
  by (relation "measure (\<lambda>(D, pointBatches, i, upserted, s). length pointBatches - i)") auto

declare upsert_loop.simps [simp del]

subsection \<open>main\<close>

text \<open>
  \<open>main D dir w\<close> runs the pipeline on the listing \<open>dir\<close> of \<^verbatim>\<open>./assets\<close> from the world
  state \<open>w\<close>. The result is \<open>None\<close> when the run does not return, otherwise the outcome
  (\<open>Inl\<close> for a rejection, \<open>Inr ()\<close> for a normal return) and the final state with its
  trace. The last console message is recorded without its leading check mark.
\<close>

definition main :: "('w, 'v) deps \<Rightarrow> error + dirent list \<Rightarrow> 'w \<Rightarrow> ((error + unit) \<times> ('w, 'v) run) option" where
  "main D dir w =
     (let s = \<lparr>world = w, trace = []\<rparr> in
      case loadMarkdownDocs D dir of
        Inl e \<Rightarrow> Some (Inl e, s)
      | Inr docs \<Rightarrow>
          if length docs = 0 then Some (Inr (), console_warn ''No .md files in ./assets'' s)
          else
            (let sections = markdownNodeParser D docs;
                 chunks = section_loop D sections Map.empty []
             in if length chunks = 0
                then Some (Inr (), console_warn
                       ''No non-empty chunks produced. Check your Markdown and splitter settings.'' s)
                else
                  (let texts = map getText chunks in
                   case chunkArray texts EMBED_BATCH of
                     None \<Rightarrow> None
                   | Some textBatches \<Rightarrow>
                       (case embed_loop D textBatches 0 [] s of
                          (Inl e, s) \<Rightarrow> Some (Inl e, s)
                        | (Inr vectors, s) \<Rightarrow>
                            if length vectors \<noteq> length chunks
                            then Some (Inl (Misalignment (length vectors) (length chunks)), s)
                            else
                              (let points = allPoints D chunks vectors in
                               case chunkArray points UPSERT_BATCH of
                                 None \<Rightarrow> None
                               | Some pointBatches \<Rightarrow>
                                   (case upsert_loop D pointBatches 0 0 s of
                                      (Inl e, s) \<Rightarrow> Some (Inl e, s)
                                    | (Inr upserted, s) \<Rightarrow>
                                        Some (Inr (), console_log
                                          (''Upserted '' @ dec upserted @ '' chunks into '' @ COLLECTION
                                             @ '' (flat payloads, deterministic ids).'') s)))))))"

text \<open>
  The last statement of the file, \<^verbatim>\<open>main().catch(e => { console.error(e); process.exit(1) })\<close>:
  the exit status of the process is 1 after a rejection and 0 after a normal return.
\<close>

definition process :: "('w, 'v) deps \<Rightarrow> error + dirent list \<Rightarrow> 'w \<Rightarrow> (nat \<times> ('w, 'v) run) option" where
  "process D dir w =
     (case main D dir w of
        None \<Rightarrow> None
      | Some (Inl e, s) \<Rightarrow> Some (1, console_error e s)
      | Some (Inr u, s) \<Rightarrow> Some (0, s))"

subsection \<open>Specification functions and example collaborators\<close>

text \<open>
  The partition the specification describes: consecutive batches of \<open>B\<close> items, the last one
  possibly shorter.
\<close>

function consecutive_batches :: "nat \<Rightarrow> 'a list \<Rightarrow> 'a list list" where
  "consecutive_batches B xs =
     (if B = 0 \<or> xs = [] then [] else take B xs # consecutive_batches B (drop B xs))"
  by pat_completeness auto
termination
  by (relation "measure (\<lambda>(B, xs). length xs)") auto

declare consecutive_batches.simps [simp del]

text \<open>
  Simple collaborators for concrete runs. \<open>example_extname\<close> and \<open>example_parse_name\<close>
  give what \<^verbatim>\<open>path.extname\<close> and \<^verbatim>\<open>path.parse(p).name\<close> of Node give for a name without a
  slash that ends in \<^verbatim>\<open>.md\<close> (the name without its last three characters; a name that is
  just \<^verbatim>\<open>.md\<close> has no extension). The Markdown parser makes one section of a document and
  the splitter one chunk of every line; for a one-line document without a heading, such as
  \<open>one_doc\<close> below, that is what the libraries return. The hash writes the name behind the
  namespace, the provider rejects
  its first call and afterwards embeds a text as its length, and the store accepts every
  upsert. The world state counts the calls.
\<close>

definition example_extname :: "string \<Rightarrow> string" where
  "example_extname s = (if 3 < length s \<and> drop (length s - 3) s = ''.md'' then ''.md'' else [])"

definition example_parse_name :: "string \<Rightarrow> string" where
  "example_parse_name s = (if example_extname s = ''.md'' then take (length s - 3) s else s)"

fun split_lines :: "string \<Rightarrow> string \<Rightarrow> string list" where
  "split_lines cur [] = [cur]"
| "split_lines cur (c # cs) = (if c = CHR 0x0A then cur # split_lines [] cs else split_lines (cur @ [c]) cs)"

definition example_splitter :: "node list \<Rightarrow> node list" where
  "example_splitter docs =
     concat (map (\<lambda>d. map (\<lambda>t. \<lparr>text' = t, metadata = metadata d\<rparr>) (split_lines [] (text' d))) docs)"

definition example_deps :: "(nat, nat) deps" where
  "example_deps =
     \<lparr>v5 = (\<lambda>name' ns. ns @ ''/'' @ name'),
      extname = example_extname,
      parse_name = example_parse_name,
      markdownNodeParser = (\<lambda>docs. docs),
      sentenceSplitter = example_splitter,
      inferSectionTitle = (\<lambda>t p. example_parse_name p),
      slugify = (\<lambda>t. t),
      embeddings_create = (\<lambda>w xs. if w = 0 then (Inl (Failure ''timeout''), Suc w)
                                    else (Inr (Some (map length xs)), Suc w)),
      upsert = (\<lambda>w c ps. (Inr (), Suc w))\<rparr>"

subsection \<open>Specification functions for sections and retries\<close>

text \<open>
  The file a section belongs to, the chunks the main loop makes of one section when it
  carries the number \<open>k\<close>, and the number the specification gives the \<open>i\<close>-th section:
  how many sections of the same file there are up to and including it.
\<close>

definition filePath_of :: "node \<Rightarrow> string" where
  "filePath_of sec = (case metadata sec ''path'' of Some p \<Rightarrow> p | None \<Rightarrow> ''unknown.md'')"

definition section_chunks :: "('w, 'v) deps \<Rightarrow> node \<Rightarrow> nat \<Rightarrow> chunk list" where
  "section_chunks D sec k =
     chunk_loop (filePath_of sec) (parse_name D (filePath_of sec))
       (inferSectionTitle D (getText sec) (filePath_of sec))
       (slugify D (inferSectionTitle D (getText sec) (filePath_of sec)))
       k (splitSection (sentenceSplitter D) sec) 0 []"

definition section_number :: "node list \<Rightarrow> nat \<Rightarrow> nat" where
  "section_number secs i = length (filter (\<lambda>s. filePath_of s = filePath_of (secs ! i)) (take (Suc i) secs))"

text \<open>The chunks the splitter produces for a section that are not blank.\<close>

definition survivors :: "('w, 'v) deps \<Rightarrow> node \<Rightarrow> node list" where
  "survivors D sec =
     filter (\<lambda>n. trim (getText n) \<noteq> [])
       (sentenceSplitter D [\<lparr>text' = getText sec, metadata = metadata sec\<rparr>])"

text \<open>
  The retry policy as the specification words it: at most \<open>n\<close> attempts, stopping at the
  first success; after the failed attempt number \<open>k\<close> (counted from 0) a warning and a sleep
  of \<open>min (2000 * 2 ^ k) 15000\<close> milliseconds; the outcome is that of the last attempt.
\<close>

fun attempts :: "('w \<Rightarrow> (error + 'a) \<times> 'w) \<Rightarrow> nat \<Rightarrow> 'w \<Rightarrow> (error + 'a) list \<times> 'w" where
  "attempts step 0 w = ([], w)"
| "attempts step (Suc n) w =
     (case step w of
        (Inr r, w') \<Rightarrow> ([Inr r], w')
      | (Inl e, w') \<Rightarrow> (case attempts step n w' of (rs, w'') \<Rightarrow> (Inl e # rs, w'')))"

definition retry_message :: "string \<Rightarrow> nat \<Rightarrow> string" where
  "retry_message label k = ''['' @ label @ ''] attempt '' @ dec (k + 1) @ '' failed; retrying in ''
       @ dec (min (2000 * 2 ^ k) 15000) @ ''ms''"

fun retry_events :: "((error + 'a) \<Rightarrow> 'v event) \<Rightarrow> string \<Rightarrow> nat \<Rightarrow> (error + 'a) list \<Rightarrow> 'v event list" where
  "retry_events mk label k [] = []"
| "retry_events mk label k (Inr r # rs) = mk (Inr r) # retry_events mk label (Suc k) rs"
| "retry_events mk label k (Inl e # rs) =
     [mk (Inl e), Warn (retry_message label k), Sleep (min (2000 * 2 ^ k) 15000)] @ retry_events mk label (Suc k) rs"

definition retry_outcome :: "error option \<Rightarrow> (error + 'a) list \<Rightarrow> error + 'a" where
  "retry_outcome lastErr rs =
     (if rs = [] then Inl (case lastErr of None \<Rightarrow> Undefined | Some e \<Rightarrow> e) else last rs)"

definition performs ::
  "(('w, 'v) run \<Rightarrow> (error + 'a) \<times> ('w, 'v) run) \<Rightarrow> ('w \<Rightarrow> (error + 'a) \<times> 'w) \<Rightarrow> ((error + 'a) \<Rightarrow> 'v event) \<Rightarrow> bool" where
  "performs fn step mk \<longleftrightarrow>
     (\<forall>s. fn s = (fst (step (world s)), s\<lparr>world := snd (step (world s)), trace := trace s @ [mk (fst (step (world s)))]\<rparr>))"

text \<open>Readings of a trace.\<close>

fun mismatched :: "'v event \<Rightarrow> bool" where
  "mismatched (EmbedCall xs (Inr None)) = True"
| "mismatched (EmbedCall xs (Inr (Some d))) = (length d \<noteq> length xs)"
| "mismatched ev = False"

fun is_upsert :: "'v event \<Rightarrow> bool" where
  "is_upsert (UpsertCall c ps r) = True"
| "is_upsert ev = False"

fun ok_calls :: "'v event list \<Rightarrow> (string list \<times> 'v list) list" where
  "ok_calls [] = []"
| "ok_calls (EmbedCall xs (Inr (Some d)) # evs) = (xs, d) # ok_calls evs"
| "ok_calls (ev # evs) = ok_calls evs"

fun upserted_points :: "'v event list \<Rightarrow> 'v point list" where
  "upserted_points [] = []"
| "upserted_points (UpsertCall c ps r # evs) = ps @ upserted_points evs"
| "upserted_points (ev # evs) = upserted_points evs"

text \<open>
  The points of the upsert calls the store accepted: \<open>upserted_points\<close> also counts the
  calls it rejected, which \<^verbatim>\<open>withRetry\<close> repeats.
\<close>

fun stored_points :: "'v event list \<Rightarrow> 'v point list" where
  "stored_points [] = []"
| "stored_points (UpsertCall c ps (Inr u) # evs) = ps @ stored_points evs"
| "stored_points (ev # evs) = stored_points evs"

fun embed_inputs :: "'v event list \<Rightarrow> string list list" where
  "embed_inputs [] = []"
| "embed_inputs (EmbedCall xs r # evs) = xs # embed_inputs evs"
| "embed_inputs (ev # evs) = embed_inputs evs"

subsection \<open>Example inputs\<close>

definition two_sections :: "node list" where
  "two_sections =
     [\<lparr>text' = ''# One'' @ [CHR 0x0A] @ ''  '' @ [CHR 0x0A] @ ''alpha'', metadata = [''path'' \<mapsto> ''a.md'']\<rparr>,
      \<lparr>text' = ''# Two'' @ [CHR 0x0A] @ ''beta'', metadata = [''path'' \<mapsto> ''a.md'']\<rparr>,
      \<lparr>text' = ''gamma'', metadata = [''path'' \<mapsto> ''b.md'']\<rparr>]"

definition one_file :: "error + dirent list" where
  "one_file = Inr [\<lparr>name = '' a.md'', isFile = True, contents = Inr ''hello''\<rparr>,
                   \<lparr>name = ''notes.txt'', isFile = True, contents = Inr ''skip''\<rparr>]"

definition one_doc :: node where
  "one_doc = \<lparr>text' = ''hello'',
              metadata = [''path'' \<mapsto> '' a.md'', ''fileName'' \<mapsto> '' a.md'', ''ext'' \<mapsto> ''.md'']\<rparr>"

definition one_chunk :: chunk where
  "one_chunk =
     \<lparr>text' = ''a||hello'',
      metadata = [''path'' \<mapsto> '' a.md'', ''fileName'' \<mapsto> '' a.md'', ''ext'' \<mapsto> ''.md''],
      path = '' a.md'', fileName = '' a'', sectionTitle = '' a'', sectionAnchor = '' a'',
      sectionIndex = 1, chunkIndex = 1, source = ''kb''\<rparr>"

definition empty_dir :: "error + dirent list" where
  "empty_dir = Inr []"

definition blank_file :: "error + dirent list" where
  "blank_file = Inr [\<lparr>name = ''a.md'', isFile = True, contents = Inr ('' '' @ [CHR 0x0A] @ ''  '')\<rparr>]"

text \<open>
  A file of two lines, the two chunks the example collaborators make of it, and the points
  and the trace of its run: the provider rejects the first call and answers the second.
\<close>

definition two_line_file :: "error + dirent list" where
  "two_line_file = Inr [\<lparr>name = ''n.md'', isFile = True, contents = Inr (''ab'' @ [CHR 0x0A] @ ''cdef'')\<rparr>]"

definition two_line_doc :: node where
  "two_line_doc = \<lparr>text' = ''ab'' @ [CHR 0x0A] @ ''cdef'',
                   metadata = [''path'' \<mapsto> ''n.md'', ''fileName'' \<mapsto> ''n.md'', ''ext'' \<mapsto> ''.md'']\<rparr>"

definition chunk_ab :: chunk where
  "chunk_ab =
     \<lparr>text' = ''n||ab'',
      metadata = [''path'' \<mapsto> ''n.md'', ''fileName'' \<mapsto> ''n.md'', ''ext'' \<mapsto> ''.md''],
      path = ''n.md'', fileName = ''n'', sectionTitle = ''n'', sectionAnchor = ''n'',
      sectionIndex = 1, chunkIndex = 1, source = ''kb''\<rparr>"

definition chunk_cdef :: chunk where
  "chunk_cdef =
     \<lparr>text' = ''n||cdef'',
      metadata = [''path'' \<mapsto> ''n.md'', ''fileName'' \<mapsto> ''n.md'', ''ext'' \<mapsto> ''.md''],
      path = ''n.md'', fileName = ''n'', sectionTitle = ''n'', sectionAnchor = ''n'',
      sectionIndex = 1, chunkIndex = 2, source = ''kb''\<rparr>"

definition two_points :: "nat point list" where
  "two_points = [\<lparr>id' = BASE_NS @ ''/n.md|s1|c1'', vector = 5, payload = chunk_ab\<rparr>,
                 \<lparr>id' = BASE_NS @ ''/n.md|s1|c2'', vector = 7, payload = chunk_cdef\<rparr>]"

definition two_line_trace :: "nat event list" where
  "two_line_trace =
     [EmbedCall [''n||ab'', ''n||cdef''] (Inl (Failure ''timeout'')),
      Warn ''[embed-batch-1/1] attempt 1 failed; retrying in 2000ms'',
      Sleep 2000,
      EmbedCall [''n||ab'', ''n||cdef''] (Inr (Some [5, 7])),
      UpsertCall COLLECTION two_points (Inr ()),
      ConsoleLog ''Upserted 2 chunks into kb_docs_v1 (flat payloads, deterministic ids).'']"

text \<open>A provider that answers every request with an empty \<^verbatim>\<open>data\<close> array.\<close>

definition short_deps :: "(nat, nat) deps" where
  "short_deps = example_deps\<lparr>embeddings_create := (\<lambda>w xs. (Inr (Some []), Suc w))\<rparr>"

text \<open>A provider and a store that reject every request.\<close>

definition failing_deps :: "(nat, nat) deps" where
  "failing_deps = example_deps\<lparr>embeddings_create := (\<lambda>w xs. (Inl (Failure ''down''), Suc w)),
                                  upsert := (\<lambda>w c ps. (Inl (Failure ''down''), Suc w))\<rparr>"

text \<open>The point and the traces of the example runs.\<close>

definition one_point :: "nat point" where
  "one_point = \<lparr>id' = BASE_NS @ ''/ a.md|s1|c1'', vector = 8, payload = one_chunk\<rparr>"

definition example_trace :: "nat event list" where
  "example_trace =
     [EmbedCall [''a||hello''] (Inl (Failure ''timeout'')),
      Warn ''[embed-batch-1/1] attempt 1 failed; retrying in 2000ms'',
      Sleep 2000,
      EmbedCall [''a||hello''] (Inr (Some [8])),
      UpsertCall COLLECTION [one_point] (Inr ()),
      ConsoleLog ''Upserted 1 chunks into kb_docs_v1 (flat payloads, deterministic ids).'']"

definition failing_trace :: "nat event list" where
  "failing_trace =
     [EmbedCall [''a||hello''] (Inl (Failure ''down'')),
      Warn ''[embed-batch-1/1] attempt 1 failed; retrying in 2000ms'', Sleep 2000,
      EmbedCall [''a||hello''] (Inl (Failure ''down'')),
      Warn ''[embed-batch-1/1] attempt 2 failed; retrying in 4000ms'', Sleep 4000,
      EmbedCall [''a||hello''] (Inl (Failure ''down'')),
      Warn ''[embed-batch-1/1] attempt 3 failed; retrying in 8000ms'', Sleep 8000,
      EmbedCall [''a||hello''] (Inl (Failure ''down'')),
      Warn ''[embed-batch-1/1] attempt 4 failed; retrying in 15000ms'', Sleep 15000]"

text \<open>A provider that always answers, with a store that rejects every request.\<close>

definition store_down_deps :: "(nat, nat) deps" where
  "store_down_deps = example_deps\<lparr>embeddings_create := (\<lambda>w xs. (Inr (Some (map length xs)), Suc w)),
                                     upsert := (\<lambda>w c ps. (Inl (Failure ''down''), Suc w))\<rparr>"

definition store_down_trace :: "nat event list" where
  "store_down_trace =
     [EmbedCall [''a||hello''] (Inr (Some [8])),
      UpsertCall COLLECTION [one_point] (Inl (Failure ''down'')),
      Warn ''[upsert-1/1] attempt 1 failed; retrying in 2000ms'', Sleep 2000,
      UpsertCall COLLECTION [one_point] (Inl (Failure ''down'')),
      Warn ''[upsert-1/1] attempt 2 failed; retrying in 4000ms'', Sleep 4000,
      UpsertCall COLLECTION [one_point] (Inl (Failure ''down'')),
      Warn ''[upsert-1/1] attempt 3 failed; retrying in 8000ms'', Sleep 8000,
      UpsertCall COLLECTION [one_point] (Inl (Failure ''down'')),
      Warn ''[upsert-1/1] attempt 4 failed; retrying in 15000ms'', Sleep 15000]"

section \<open>Properties\<close>

subsection \<open>Decimal numerals and the name that is hashed\<close>

lemma digit_inj: "a < 10 \<Longrightarrow> b < 10 \<Longrightarrow> digit a = digit b \<Longrightarrow> a = b"
  unfolding digit_def
  by (subst (asm) nth_eq_iff_index_eq) simp_all

lemma digit_not_bar: "k < 10 \<Longrightarrow> digit k \<noteq> CHR ''|''"
proof -
  assume "k < 10"
  then have "digit k \<in> set ''0123456789''"
    unfolding digit_def by (intro nth_mem) simp
  then show ?thesis by auto
qed

lemma dec_nonempty: "dec n \<noteq> []"
  by (subst dec.simps) simp

lemma dec_no_bar: "CHR ''|'' \<notin> set (dec n)"
proof (induction n rule: dec.induct)
  case (1 n)
  show ?case
  proof (cases "n < 10")
    case True
    then show ?thesis using digit_not_bar[of n] by (subst dec.simps) auto
  next
    case False
    then show ?thesis using 1 digit_not_bar[of "n mod 10"] by (subst dec.simps) auto
  qed
qed

lemma dec_inj: "dec n = dec m \<Longrightarrow> n = m"
proof (induction n arbitrary: m rule: dec.induct)
  case (1 n)
  show ?case
  proof (cases "n < 10")
    case n: True
    show ?thesis
    proof (cases "m < 10")
      case True
      with n 1(2) show ?thesis by (simp add: dec.simps[of n] dec.simps[of m] digit_inj)
    next
      case False
      with n 1(2) dec_nonempty[of "m div 10"] show ?thesis
        by (simp add: dec.simps[of n] dec.simps[of m])
    qed
  next
    case n: False
    show ?thesis
    proof (cases "m < 10")
      case True
      with n 1(2) dec_nonempty[of "n div 10"] show ?thesis
        by (simp add: dec.simps[of n] dec.simps[of m])
    next
      case False
      with n 1(2) have e: "dec (n div 10) = dec (m div 10)" and d: "digit (n mod 10) = digit (m mod 10)"
        by (simp_all add: dec.simps[of n] dec.simps[of m])
      from 1(1)[OF n e] have "n div 10 = m div 10" .
      moreover from d have "n mod 10 = m mod 10" by (intro digit_inj) simp_all
      ultimately show ?thesis by (metis div_mult_mod_eq)
    qed
  qed
qed

text \<open>A string is cut in one way only at its last bar.\<close>

lemma split_last_bar:
  assumes "CHR ''|'' \<notin> set a" "CHR ''|'' \<notin> set b" "xs @ CHR ''|'' # a = ys @ CHR ''|'' # b"
  shows "xs = ys \<and> a = b"
proof -
  let ?nb = "\<lambda>c. c \<noteq> CHR ''|''"
  have "rev a @ CHR ''|'' # rev xs = rev b @ CHR ''|'' # rev ys"
    using arg_cong[OF assms(3), of rev] by simp
  then have t: "takeWhile ?nb (rev a @ CHR ''|'' # rev xs) = takeWhile ?nb (rev b @ CHR ''|'' # rev ys)"
    by simp
  have "takeWhile ?nb (rev a @ CHR ''|'' # rev xs) = rev a"
    using assms(1) by (subst takeWhile_append2) auto
  moreover have "takeWhile ?nb (rev b @ CHR ''|'' # rev ys) = rev b"
    using assms(2) by (subst takeWhile_append2) auto
  ultimately have "a = b" using t by simp
  with assms(3) show ?thesis by simp
qed

lemma id_name_inj:
  assumes "id_name p s c = id_name p' s' c'"
  shows "p = p' \<and> s = s' \<and> c = c'"
proof -
  have e: "(p @ ''|s'' @ dec s) @ CHR ''|'' # (CHR ''c'' # dec c)
         = (p' @ ''|s'' @ dec s') @ CHR ''|'' # (CHR ''c'' # dec c')"
    using assms by (simp add: id_name_def)
  have 1: "p @ ''|s'' @ dec s = p' @ ''|s'' @ dec s' \<and> CHR ''c'' # dec c = CHR ''c'' # dec c'"
    by (rule split_last_bar[OF _ _ e]) (simp_all add: dec_no_bar)
  then have e2: "p @ CHR ''|'' # (CHR ''s'' # dec s) = p' @ CHR ''|'' # (CHR ''s'' # dec s')"
    by simp
  have 2: "p = p' \<and> CHR ''s'' # dec s = CHR ''s'' # dec s'"
    by (rule split_last_bar[OF _ _ e2]) (simp_all add: dec_no_bar)
  from 1 2 show ?thesis by (auto dest: dec_inj)
qed

lemma allPoints_nth:
  "i < length chunks \<Longrightarrow>
   allPoints D chunks vectors ! i =
     \<lparr>id' = stableId (v5 D) (path (chunks ! i)) (sectionIndex (chunks ! i)) (chunkIndex (chunks ! i))
              (text' (payload_of (chunks ! i))),
      vector = vectors ! i, payload = payload_of (chunks ! i)\<rparr>"
  by (simp add: allPoints_def Let_def payload_of_def split: option.split)

lemma length_allPoints: "length (allPoints D chunks vectors) = length chunks"
  by (simp add: allPoints_def)

subsection \<open>Batches\<close>

lemma slice_in_range:
  assumes "0 \<le> i" "i < int (length arr)" "1 \<le> sz"
  shows "slice arr i (i + sz) = take (nat sz) (drop (nat i) arr)"
proof -
  have "take (nat (min (i + sz) (int (length arr)) - i)) (drop (nat i) arr) = take (nat sz) (drop (nat i) arr)"
  proof (cases "i + sz \<le> int (length arr)")
    case True
    then show ?thesis by (simp add: min_def)
  next
    case False
    then have "length (drop (nat i) arr) \<le> nat sz"
      and "length (drop (nat i) arr) \<le> nat (min (i + sz) (int (length arr)) - i)"
      using assms by (auto simp: min_def)
    then show ?thesis by simp
  qed
  then show ?thesis using assms by (simp add: slice_def Let_def min_def)
qed

lemma chunkArray_loop_pos:
  assumes "1 \<le> sz"
  shows "0 \<le> i \<Longrightarrow> chunkArray_loop arr sz i out = Some (out @ consecutive_batches (nat sz) (drop (nat i) arr))"
proof (induction "length arr - nat i" arbitrary: i out rule: less_induct)
  case less
  show ?case
  proof (cases "i < int (length arr)")
    case True
    have d: "drop (nat (i + sz)) arr = drop (nat sz) (drop (nat i) arr)"
      using less.prems assms by (simp add: nat_add_distrib add.commute)
    have ne: "drop (nat i) arr \<noteq> []" using True less.prems by simp
    have "length arr - nat (i + sz) < length arr - nat i"
      using True less.prems assms by linarith
    from less.hyps[OF this] less.prems assms
    have ih: "chunkArray_loop arr sz (i + sz) (out @ [slice arr i (i + sz)]) =
       Some ((out @ [slice arr i (i + sz)]) @ consecutive_batches (nat sz) (drop (nat (i + sz)) arr))"
      by simp
    show ?thesis
      using True ih ne assms
      by (subst chunkArray_loop.simps, subst consecutive_batches.simps)
         (simp add: slice_in_range[OF less.prems True assms] d)
  next
    case False
    then show ?thesis
      by (subst chunkArray_loop.simps, subst consecutive_batches.simps) simp
  qed
qed

lemma chunkArray_pos: "1 \<le> sz \<Longrightarrow> chunkArray arr sz = Some (consecutive_batches (nat sz) arr)"
  using chunkArray_loop_pos[of sz 0 arr "[]"] by (simp add: chunkArray_def)

text \<open>A loop that returns did not start below the end of the array with a step that is not positive.\<close>

lemma chunkArray_loop_Some:
  assumes "chunkArray_loop arr sz i out = Some r"
  shows "\<not> (sz \<le> 0 \<and> i < int (length arr))"
  using assms
proof (induction arbitrary: r rule: chunkArray_loop.raw_induct[rotated 1, consumes 1])
  case (1 loop arr sz i out r)
  show ?case
  proof
    assume a: "sz \<le> 0 \<and> i < int (length arr)"
    with 1(2) have "loop arr sz (i + sz) (out @ [slice arr i (i + sz)]) = Some r" by simp
    from 1(1)[OF this] a show False by simp
  qed
qed

lemma concat_consecutive_batches: "0 < B \<Longrightarrow> concat (consecutive_batches B xs) = xs"
proof (induction B xs rule: consecutive_batches.induct)
  case (1 B xs)
  then show ?case by (subst consecutive_batches.simps) auto
qed

lemma consecutive_batches_bounds:
  "b \<in> set (consecutive_batches B xs) \<Longrightarrow> b \<noteq> [] \<and> length b \<le> B"
proof (induction B xs rule: consecutive_batches.induct)
  case (1 B xs)
  from 1(2) have ne: "\<not> (B = 0 \<or> xs = [])"
    and m: "b = take B xs \<or> b \<in> set (consecutive_batches B (drop B xs))"
    by (subst (asm) consecutive_batches.simps, simp split: if_splits)+
  from m show ?case
  proof
    assume "b = take B xs"
    with ne show ?thesis by simp
  next
    assume "b \<in> set (consecutive_batches B (drop B xs))"
    with 1(1)[OF ne] show ?thesis .
  qed
qed

subsection \<open>Trimming and the chunks of a section\<close>

lemma bar_not_ws: "\<not> isWhiteSpace CHR ''|''"
  by (simp add: isWhiteSpace_def)

lemma trim_end_trim: "rev (dropWhile isWhiteSpace (rev (trim s))) = trim s"
  by (simp add: trim_def)

lemma dropWhile_trim: "dropWhile isWhiteSpace (trim s) = trim s"
proof (cases "dropWhile isWhiteSpace s = []")
  case True
  show ?thesis unfolding trim_def True by simp
next
  case False
  then have nw: "\<not> isWhiteSpace (hd (dropWhile isWhiteSpace s))" by (rule hd_dropWhile)
  obtain x xs where x: "dropWhile isWhiteSpace s = x # xs"
    using False by (cases "dropWhile isWhiteSpace s") auto
  with nw have nx: "\<not> isWhiteSpace x" by simp
  have "\<exists>ys. dropWhile isWhiteSpace (rev xs @ [x]) = ys @ [x]"
    using nx by (metis dropWhile_append3 dropWhile_append append_Nil dropWhile_eq_Nil_conv)
  then obtain ys where "dropWhile isWhiteSpace (rev xs @ [x]) = ys @ [x]" by blast
  then have "trim s = x # rev ys" by (simp add: trim_def x)
  with nx show ?thesis by simp
qed

lemma trim_idem: "trim (trim s) = trim s"
  using dropWhile_trim[of s] trim_end_trim[of s] by (simp add: trim_def[of "trim s"])

text \<open>A non-empty text that is its own trim neither begins nor ends with white space.\<close>

lemma stripped_ends:
  assumes "trim t = t" "t \<noteq> []"
  shows "\<not> isWhiteSpace (hd t) \<and> \<not> isWhiteSpace (last t)"
proof -
  have "dropWhile isWhiteSpace t = t" using dropWhile_trim[of t] assms(1) by simp
  then have h: "\<not> isWhiteSpace (hd t)" using hd_dropWhile[of isWhiteSpace t] assms(2) by simp
  have "rev (dropWhile isWhiteSpace (rev t)) = t" using trim_end_trim[of t] assms(1) by simp
  from arg_cong[OF this, of rev] have "dropWhile isWhiteSpace (rev t) = rev t" by simp
  then have "\<not> isWhiteSpace (hd (rev t))"
    using hd_dropWhile[of isWhiteSpace "rev t"] assms(2) by simp
  then have "\<not> isWhiteSpace (last t)" using assms(2) by (simp add: hd_rev)
  with h show ?thesis by simp
qed

lemma trim_tagged:
  "trim (f @ CHR ''|'' # CHR ''|'' # r)
     = dropWhile isWhiteSpace f @ CHR ''|'' # CHR ''|'' # rev (dropWhile isWhiteSpace (rev r))"
proof -
  have 1: "dropWhile isWhiteSpace (f @ CHR ''|'' # CHR ''|'' # r) = dropWhile isWhiteSpace f @ CHR ''|'' # CHR ''|'' # r"
    using bar_not_ws by (rule dropWhile_append3)
  have 2: "dropWhile isWhiteSpace (rev r @ CHR ''|'' # CHR ''|'' # rev (dropWhile isWhiteSpace f))
         = dropWhile isWhiteSpace (rev r) @ CHR ''|'' # CHR ''|'' # rev (dropWhile isWhiteSpace f)"
    using bar_not_ws by (rule dropWhile_append3)
  show ?thesis
    unfolding trim_def 1 using 2 by simp
qed

lemma trim_tagged_trim:
  "trim (f @ CHR ''|'' # CHR ''|'' # trim r) = dropWhile isWhiteSpace f @ CHR ''|'' # CHR ''|'' # trim r"
  by (simp only: trim_tagged trim_end_trim)

lemma chunk_loop_closed:
  "chunk_loop fp fn st sa si parts k chunks =
     chunks @ map (\<lambda>(j, c). \<lparr>text' = dropWhile isWhiteSpace fn @ ''||'' @ trim (getText c), metadata = metadata c,
                               path = fp, fileName = fn, sectionTitle = st, sectionAnchor = sa,
                               sectionIndex = si, chunkIndex = j, source = ''kb''\<rparr>)
                   (enumerate (Suc k) parts)"
proof (induction parts arbitrary: k chunks)
  case Nil
  then show ?case by simp
next
  case (Cons c parts)
  show ?case
    by (simp add: Cons.IH Let_def getText_def trim_tagged_trim)
qed

lemma splitSection_eq:
  "splitSection splitter sec =
     map (\<lambda>n. \<lparr>text' = trim (getText n), metadata = metadata sec ++ metadata n\<rparr>)
       (filter (\<lambda>n. trim (getText n) \<noteq> []) (splitter [\<lparr>text' = getText sec, metadata = metadata sec\<rparr>]))"
  by (simp add: splitSection_def Let_def getText_def filter_map comp_def)

lemma section_loop_closed:
  "section_loop D secs pfs chunks =
     chunks @ concat (map (\<lambda>i. section_chunks D (secs ! i)
                 ((case pfs (filePath_of (secs ! i)) of Some k \<Rightarrow> k | None \<Rightarrow> 0) + section_number secs i))
               [0..<length secs])"
proof (induction secs arbitrary: pfs chunks)
  case Nil
  then show ?case by simp
next
  case (Cons sec secs)
  let ?fp = "filePath_of sec"
  let ?k = "(case pfs ?fp of Some k \<Rightarrow> k | None \<Rightarrow> 0) + 1"
  have n: "(case (pfs(?fp \<mapsto> ?k)) (filePath_of (secs ! i)) of Some k \<Rightarrow> k | None \<Rightarrow> 0) + section_number secs i
         = (case pfs (filePath_of ((sec # secs) ! Suc i)) of Some k \<Rightarrow> k | None \<Rightarrow> 0) + section_number (sec # secs) (Suc i)" for i
    by (simp add: section_number_def)
  have z: "section_number (sec # secs) 0 = 1" by (simp add: section_number_def)
  have c: "chunk_loop fp fn st sa si parts 0 chunks = chunks @ chunk_loop fp fn st sa si parts 0 []" for fp fn st sa si parts
    by (simp add: chunk_loop_closed)
  show ?case
    apply (simp only: section_loop.simps Let_def Cons.IH filePath_of_def[symmetric] n)
    apply (subst c)
    apply (simp add: map_upt_Suc section_chunks_def z del: upt_Suc)
    done
qed


lemma section_chunks_eq:
  "section_chunks D sec k =
     map (\<lambda>(j, n). \<lparr>text' = dropWhile isWhiteSpace (parse_name D (filePath_of sec)) @ ''||'' @ trim (getText n),
                     metadata = metadata sec ++ metadata n,
                     path = filePath_of sec, fileName = parse_name D (filePath_of sec),
                     sectionTitle = inferSectionTitle D (getText sec) (filePath_of sec),
                     sectionAnchor = slugify D (inferSectionTitle D (getText sec) (filePath_of sec)),
                     sectionIndex = k, chunkIndex = j, source = ''kb''\<rparr>)
       (enumerate 1 (survivors D sec))"
  by (simp add: section_chunks_def chunk_loop_closed splitSection_eq enumerate_eq_zip zip_map2 survivors_def
        getText_def trim_idem comp_def split_def)

lemma chunkIndex_section_chunks:
  "map chunkIndex (section_chunks D sec k) = [1 ..< Suc (length (survivors D sec))]"
proof -
  have "map chunkIndex (section_chunks D sec k) = map fst (enumerate 1 (survivors D sec))"
    by (simp add: section_chunks_eq comp_def split_def)
  then show ?thesis by (simp add: map_fst_enumerate del: upt_Suc)
qed

lemma getText_section_chunks:
  "map getText (section_chunks D sec k) =
     map (\<lambda>n. dropWhile isWhiteSpace (parse_name D (filePath_of sec)) @ ''||'' @ trim (getText n)) (survivors D sec)"
proof -
  have "map getText (section_chunks D sec k) =
     map ((\<lambda>n. dropWhile isWhiteSpace (parse_name D (filePath_of sec)) @ ''||'' @ trim (getText n)) \<circ> snd)
        (enumerate 1 (survivors D sec))"
    by (simp add: section_chunks_eq comp_def split_def getText_def)
  then show ?thesis by (simp add: map_snd_enumerate flip: map_map)
qed

lemma section_chunks_fields:
  "c \<in> set (section_chunks D sec k) \<Longrightarrow>
     sectionIndex c = k \<and> path c = filePath_of sec \<and> fileName c = parse_name D (filePath_of sec) \<and> source c = ''kb''"
  by (auto simp: section_chunks_eq)

lemma section_number_Suc:
  "i < length secs \<Longrightarrow>
   section_number secs i = Suc (length (filter (\<lambda>s. filePath_of s = filePath_of (secs ! i)) (take i secs)))"
  by (simp add: section_number_def take_Suc_conv_app_nth)

lemma main_chunks:
  "section_loop D secs Map.empty [] =
     concat (map (\<lambda>i. section_chunks D (secs ! i) (section_number secs i)) [0..<length secs])"
  by (simp add: section_loop_closed)

subsection \<open>Retries\<close>

lemma embed_call_performs: "performs (embed_call D xs) (\<lambda>w. embeddings_create D w xs) (EmbedCall xs)"
  by (simp add: performs_def embed_call_def split: prod.split)

lemma upsert_call_performs: "performs (upsert_call D ps) (\<lambda>w. upsert D w COLLECTION ps) (UpsertCall COLLECTION ps)"
  by (simp add: performs_def upsert_call_def split: prod.split)

lemma withRetry_loop_attempts:
  assumes "performs fn step mk"
  shows "withRetry_loop fn label tries attempt lastErr s =
     (case attempts step (tries - attempt) (world s) of
        (rs, w') \<Rightarrow> (retry_outcome lastErr rs, s\<lparr>world := w', trace := trace s @ retry_events mk label attempt rs\<rparr>))"
proof (induction "tries - attempt" arbitrary: attempt lastErr s)
  case 0
  then show ?case by (subst withRetry_loop.simps) (simp add: retry_outcome_def)
next
  case (Suc n)
  then have lt: "attempt < tries" and n: "n = tries - Suc attempt" and sn: "tries - attempt = Suc n" by simp_all
  obtain r w' where st: "step (world s) = (r, w')" by (cases "step (world s)")
  have fn: "fn s = (r, s\<lparr>world := w', trace := trace s @ [mk r]\<rparr>)"
    using assms st by (simp add: performs_def)
  show ?case
  proof (cases r)
    case (Inr v)
    then show ?thesis using lt fn st
      by (subst withRetry_loop.simps) (simp add: sn retry_outcome_def)
  next
    case (Inl e)
    obtain rs w'' where at: "attempts step n w' = (rs, w'')" by (cases "attempts step n w'")
    define s1 where "s1 = setTimeout (min (2000 * 2 ^ attempt) 15000)
        (console_warn (''['' @ label @ ''] attempt '' @ dec (attempt + 1) @ '' failed; retrying in ''
                         @ dec (min (2000 * 2 ^ attempt) 15000) @ ''ms'')
           (s\<lparr>world := w', trace := trace s @ [mk (Inl e)]\<rparr>))"
    have w1: "world s1 = w'"
      and t1: "trace s1 = trace s @ [mk (Inl e), Warn (retry_message label attempt), Sleep (min (2000 * 2 ^ attempt) 15000)]"
      and m1: "s1\<lparr>world := w2, trace := t2\<rparr> = s\<lparr>world := w2, trace := t2\<rparr>" for w2 t2
      by (simp_all add: s1_def console_warn_def setTimeout_def retry_message_def)
    have ih: "withRetry_loop fn label tries (Suc attempt) (Some e) s1 =
        (retry_outcome (Some e) rs, s1\<lparr>world := w'', trace := trace s1 @ retry_events mk label (Suc attempt) rs\<rparr>)"
      using Suc.hyps(1)[OF n, of "Some e" s1] at n by (simp add: w1)
    have step1: "withRetry_loop fn label tries attempt lastErr s = withRetry_loop fn label tries (Suc attempt) (Some e) s1"
      using lt fn Inl by (subst withRetry_loop.simps) (simp add: Let_def s1_def)
    show ?thesis
      unfolding step1 ih m1 t1 using st Inl at by (simp add: sn retry_outcome_def)
  qed
qed


subsection \<open>The trace of a run\<close>

lemma embed_inputs_append: "embed_inputs (a @ b) = embed_inputs a @ embed_inputs b"
  by (induction a rule: embed_inputs.induct) simp_all

lemma embed_inputs_retry:
  "set (embed_inputs (retry_events (EmbedCall xs) label k rs)) \<subseteq> {xs}"
  by (induction "EmbedCall xs :: error + 'a list option \<Rightarrow> 'a event" label k rs rule: retry_events.induct) auto

lemma embed_inputs_upsert:
  "embed_inputs (retry_events (UpsertCall c ps) label k rs) = []"
  by (induction "UpsertCall c ps :: error + unit \<Rightarrow> 'a event" label k rs rule: retry_events.induct) auto

lemma attempts_shape:
  "attempts step n w = (rs, w') \<Longrightarrow>
     (\<exists>es. rs = map Inl es \<and> length es = n) \<or> (\<exists>es v. rs = map Inl es @ [Inr v] \<and> length es < n)"
proof (induction n arbitrary: w rs w')
  case 0
  then show ?case by simp
next
  case (Suc n)
  obtain r w1 where st: "step w = (r, w1)" by (cases "step w")
  show ?case
  proof (cases r)
    case (Inr v)
    with Suc.prems st have "rs = map Inl [] @ [Inr v] \<and> length ([] :: error list) < Suc n" by simp
    then show ?thesis by blast
  next
    case (Inl e)
    obtain rs1 w2 where a: "attempts step n w1 = (rs1, w2)" by (cases "attempts step n w1")
    with Suc.prems st Inl have rs: "rs = Inl e # rs1" by simp
    from Suc.IH[OF a] show ?thesis
    proof
      assume "\<exists>es. rs1 = map Inl es \<and> length es = n"
      then obtain es where "rs1 = map Inl es" "length es = n" by blast
      then have "rs = map Inl (e # es) \<and> length (e # es) = Suc n" using rs by simp
      then show ?thesis by blast
    next
      assume "\<exists>es v. rs1 = map Inl es @ [Inr v] \<and> length es < n"
      then obtain es v where "rs1 = map Inl es @ [Inr v]" "length es < n" by blast
      then have "rs = map Inl (e # es) @ [Inr v] \<and> length (e # es) < Suc n" using rs by simp
      then show ?thesis by blast
    qed
  qed
qed

lemma retry_events_fails_append:
  "retry_events mk label k (map Inl es @ rs) =
     retry_events mk label k (map Inl es) @ retry_events mk label (k + length es) rs"
  by (induction es arbitrary: k) simp_all

lemma ok_calls_append: "ok_calls (a @ b) = ok_calls a @ ok_calls b"
  by (induction a rule: ok_calls.induct) simp_all

lemma upserted_points_append: "upserted_points (a @ b) = upserted_points a @ upserted_points b"
  by (induction a rule: upserted_points.induct) simp_all

lemma embed_fail_events:
  "\<forall>ev \<in> set (retry_events (EmbedCall xs) label k (map Inl es)). \<not> mismatched ev \<and> \<not> is_upsert ev"
  by (induction es arbitrary: k) auto

lemma ok_calls_embed_fails: "ok_calls (retry_events (EmbedCall xs) label k (map Inl es)) = []"
  by (induction es arbitrary: k) simp_all

lemma upserted_points_embed_fails: "upserted_points (retry_events (EmbedCall xs) label k (map Inl es)) = []"
  by (induction es arbitrary: k) simp_all

lemma upsert_events_not_mismatched:
  "\<forall>ev \<in> set (retry_events (UpsertCall c ps) label k rs). \<not> mismatched ev"
  by (induction "UpsertCall c ps :: error + unit \<Rightarrow> 'a event" label k rs rule: retry_events.induct) auto

lemma upsert_events_points:
  "set (upserted_points (retry_events (UpsertCall c ps) label k rs)) \<subseteq> set ps"
  by (induction "UpsertCall c ps :: error + unit \<Rightarrow> 'a event" label k rs rule: retry_events.induct) auto

lemma withRetry_attempts:
  assumes "performs fn step mk"
  shows "withRetry fn label tries s =
     (case attempts step tries (world s) of
        (rs, w') \<Rightarrow> (retry_outcome None rs, s\<lparr>world := w', trace := trace s @ retry_events mk label 0 rs\<rparr>))"
  using withRetry_loop_attempts[OF assms, of label tries 0 None s] by (simp add: withRetry_def)

lemma withRetry_embed:
  assumes "withRetry (embed_call D xs) label tries s = (r, s1)" and "0 < tries"
  shows "\<exists>pre. (\<forall>ev \<in> set pre. \<not> mismatched ev \<and> \<not> is_upsert ev) \<and> ok_calls pre = []
            \<and> upserted_points pre = [] \<and> set (embed_inputs pre) \<subseteq> {xs}
            \<and> (case r of Inl e \<Rightarrow> trace s1 = trace s @ pre
                        | Inr res \<Rightarrow> trace s1 = trace s @ pre @ [EmbedCall xs (Inr res)])"
proof -
  obtain rs w' where a: "attempts (\<lambda>w. embeddings_create D w xs) tries (world s) = (rs, w')"
    by (cases "attempts (\<lambda>w. embeddings_create D w xs) tries (world s)")
  from assms(1) a have r: "r = retry_outcome None rs"
    and t: "trace s1 = trace s @ retry_events (EmbedCall xs) label 0 rs"
    by (auto simp: withRetry_attempts[OF embed_call_performs])
  from attempts_shape[OF a] show ?thesis
  proof
    assume "\<exists>es. rs = map Inl es \<and> length es = tries"
    then obtain es where es: "rs = map Inl es" "length es = tries" by blast
    with assms(2) have "es \<noteq> []" by auto
    then have "r = Inl (last es)" using r es by (simp add: retry_outcome_def last_map)
    then show ?thesis
      using t es
      by (intro exI[of _ "retry_events (EmbedCall xs) label 0 (map Inl es)"])
         (simp add: embed_fail_events ok_calls_embed_fails upserted_points_embed_fails embed_inputs_retry)
  next
    assume "\<exists>es v. rs = map Inl es @ [Inr v] \<and> length es < tries"
    then obtain es v where es: "rs = map Inl es @ [Inr v]" by blast
    then have "r = Inr v" using r by (simp add: retry_outcome_def)
    then show ?thesis
      using t es
      by (intro exI[of _ "retry_events (EmbedCall xs) label 0 (map Inl es)"])
         (simp add: embed_fail_events ok_calls_embed_fails upserted_points_embed_fails retry_events_fails_append
            embed_inputs_retry)
  qed
qed

lemma withRetry_upsert:
  assumes "withRetry (upsert_call D ps) label tries s = (r, s1)"
  shows "\<exists>evs. trace s1 = trace s @ evs \<and> (\<forall>ev \<in> set evs. \<not> mismatched ev)
            \<and> set (upserted_points evs) \<subseteq> set ps \<and> embed_inputs evs = []"
proof -
  obtain rs w' where a: "attempts (\<lambda>w. upsert D w COLLECTION ps) tries (world s) = (rs, w')"
    by (cases "attempts (\<lambda>w. upsert D w COLLECTION ps) tries (world s)")
  from assms a have "trace s1 = trace s @ retry_events (UpsertCall COLLECTION ps) label 0 rs"
    by (auto simp: withRetry_attempts[OF upsert_call_performs])
  then show ?thesis
    using upsert_events_not_mismatched[of COLLECTION ps label 0 rs]
      upsert_events_points[of COLLECTION ps label 0 rs]
      embed_inputs_upsert[of COLLECTION ps label 0 rs]
    by blast
qed


lemma embed_loop_done: "\<not> b < length tb \<Longrightarrow> embed_loop D tb b vs s = (Inr vs, s)"
  by (subst embed_loop.simps) simp

lemma embed_loop_step:
  "b < length tb \<Longrightarrow> embed_loop D tb b vs s =
     (case withRetry (embed_call D (tb ! b)) (''embed-batch-'' @ dec (b + 1) @ ''/'' @ dec (length tb)) 4 s of
           (Inl e, s) \<Rightarrow> (Inl e, s)
         | (Inr res, s) \<Rightarrow>
             (case res of
                None \<Rightarrow> (Inl (SizeMismatch 0 (length (tb ! b))), s)
              | Some data \<Rightarrow>
                  if length data \<noteq> length (tb ! b)
                  then (Inl (SizeMismatch (length data) (length (tb ! b))), s)
                  else embed_loop D tb (b + 1) (vs @ data) s))"
  by (subst embed_loop.simps) (simp add: Let_def)

lemma embed_loop_trace:
  "embed_loop D tb b vs s = (r, s') \<Longrightarrow>
    \<exists>evs. trace s' = trace s @ evs \<and> (\<forall>ev \<in> set evs. \<not> is_upsert ev) \<and> upserted_points evs = [] \<and>
      set (embed_inputs evs) \<subseteq> set tb \<and>
      (case r of
         Inr vectors \<Rightarrow>
           (\<forall>ev \<in> set evs. \<not> mismatched ev) \<and>
           (\<exists>ds. vectors = vs @ concat ds \<and> list_all2 (\<lambda>xs d. length xs = length d) (drop b tb) ds
                 \<and> ok_calls evs = zip (drop b tb) ds)
       | Inl e \<Rightarrow>
           (\<forall>ev \<in> set evs. \<not> mismatched ev) \<or>
           (\<exists>pre ev g x. evs = pre @ [ev] \<and> (\<forall>ev \<in> set pre. \<not> mismatched ev) \<and> e = SizeMismatch g x))"
proof (induction D tb b vs s arbitrary: r s' rule: embed_loop.induct)
  case (1 D tb b vs s)
  show ?case
  proof (cases "b < length tb")
    case False
    with "1.prems" have "r = Inr vs" "s' = s" by (simp_all add: embed_loop_done)
    then show ?thesis using False by (intro exI[of _ "[]"]) simp
  next
    case True
    let ?label = "''embed-batch-'' @ dec (b + 1) @ ''/'' @ dec (length tb)"
    obtain r1 s1 where w: "withRetry (embed_call D (tb ! b)) ?label 4 s = (r1, s1)"
      by (cases "withRetry (embed_call D (tb ! b)) ?label 4 s")
    from withRetry_embed[OF w] obtain pre where
      pre: "\<forall>ev \<in> set pre. \<not> mismatched ev \<and> \<not> is_upsert ev" "ok_calls pre = []" "upserted_points pre = []"
      and pin: "set (embed_inputs pre) \<subseteq> {tb ! b}"
      and tr: "case r1 of Inl e \<Rightarrow> trace s1 = trace s @ pre
                        | Inr res \<Rightarrow> trace s1 = trace s @ pre @ [EmbedCall (tb ! b) (Inr res)]"
      by auto
    show ?thesis
    proof (cases r1)
      case (Inl e)
      with "1.prems" True w have "r = Inl e" "s' = s1" by (simp_all add: embed_loop_step)
      then show ?thesis using pre tr Inl pin True by (intro exI[of _ pre]) auto
    next
      case (Inr res)
      with tr have t1: "trace s1 = trace s @ pre @ [EmbedCall (tb ! b) (Inr res)]" by simp
      show ?thesis
      proof (cases "\<exists>data. res = Some data \<and> length data = length (tb ! b)")
        case False
        then have "\<exists>g. r = Inl (SizeMismatch g (length (tb ! b)))" and "s' = s1"
          using "1.prems" True w Inr by (auto simp: embed_loop_step split: option.splits if_splits)
        then show ?thesis using t1 pre pin True
          by (intro exI[of _ "pre @ [EmbedCall (tb ! b) (Inr res)]"])
             (auto simp: upserted_points_append embed_inputs_append)
      next
        case good: True
        then obtain data where data: "res = Some data" "length data = length (tb ! b)" by blast
        with "1.prems" True w Inr have rec: "embed_loop D tb (b + 1) (vs @ data) s1 = (r, s')"
          by (simp add: embed_loop_step)
        have "\<not> length data \<noteq> length (tb ! b)" using data by simp
        from "1.IH"[OF True refl w[symmetric] _ _ this rec] Inr data
        obtain evs2 where e2: "trace s' = trace s1 @ evs2" "\<forall>ev \<in> set evs2. \<not> is_upsert ev"
          "upserted_points evs2 = []" "set (embed_inputs evs2) \<subseteq> set tb"
          and c2: "case r of
             Inr vectors \<Rightarrow>
               (\<forall>ev \<in> set evs2. \<not> mismatched ev) \<and>
               (\<exists>ds. vectors = (vs @ data) @ concat ds
                     \<and> list_all2 (\<lambda>xs d. length xs = length d) (drop (b + 1) tb) ds
                     \<and> ok_calls evs2 = zip (drop (b + 1) tb) ds)
           | Inl e \<Rightarrow>
               (\<forall>ev \<in> set evs2. \<not> mismatched ev) \<or>
               (\<exists>pre ev g x. evs2 = pre @ [ev] \<and> (\<forall>ev \<in> set pre. \<not> mismatched ev) \<and> e = SizeMismatch g x)"
          by auto
        let ?E = "EmbedCall (tb ! b) (Inr (Some data))"
        let ?evs = "pre @ [?E] @ evs2"
        have E: "\<not> mismatched ?E" "\<not> is_upsert ?E" using data by simp_all
        have dr: "drop b tb = tb ! b # drop (b + 1) tb" using True by (simp add: Cons_nth_drop_Suc)
        have 1: "trace s' = trace s @ ?evs" using e2 t1 data by simp
        have 2: "\<forall>ev \<in> set ?evs. \<not> is_upsert ev" using pre e2 by auto
        have 3: "upserted_points ?evs = []" using pre e2 by (simp add: upserted_points_append)
        have 5: "set (embed_inputs ?evs) \<subseteq> set tb" using pin e2 True by (auto simp: embed_inputs_append)
        have 4: "case r of
             Inr vectors \<Rightarrow>
               (\<forall>ev \<in> set ?evs. \<not> mismatched ev) \<and>
               (\<exists>ds. vectors = vs @ concat ds
                     \<and> list_all2 (\<lambda>xs d. length xs = length d) (drop b tb) ds
                     \<and> ok_calls ?evs = zip (drop b tb) ds)
           | Inl e \<Rightarrow>
               (\<forall>ev \<in> set ?evs. \<not> mismatched ev) \<or>
               (\<exists>pre ev g x. ?evs = pre @ [ev] \<and> (\<forall>ev \<in> set pre. \<not> mismatched ev) \<and> e = SizeMismatch g x)"
        proof (cases r)
          case (Inr vectors)
          with c2 obtain ds where cl: "\<forall>ev \<in> set evs2. \<not> mismatched ev"
            and ds: "vectors = (vs @ data) @ concat ds"
              "list_all2 (\<lambda>xs d. length xs = length d) (drop (b + 1) tb) ds"
              "ok_calls evs2 = zip (drop (b + 1) tb) ds"
            by auto
          have "vectors = vs @ concat (data # ds)" using ds by simp
          moreover have "list_all2 (\<lambda>xs d. length xs = length d) (drop b tb) (data # ds)"
            unfolding dr using ds data by simp
          moreover have "ok_calls ?evs = zip (drop b tb) (data # ds)"
            unfolding dr using ds pre by (simp add: ok_calls_append)
          moreover have "\<forall>ev \<in> set ?evs. \<not> mismatched ev" using pre cl E by auto
          ultimately have "(\<forall>ev \<in> set ?evs. \<not> mismatched ev) \<and>
               (\<exists>ds. vectors = vs @ concat ds
                     \<and> list_all2 (\<lambda>xs d. length xs = length d) (drop b tb) ds
                     \<and> ok_calls ?evs = zip (drop b tb) ds)"
            by blast
          then show ?thesis unfolding Inr sum.case .
        next
          case (Inl e)
          with c2 have "(\<forall>ev \<in> set evs2. \<not> mismatched ev) \<or>
               (\<exists>pre ev g x. evs2 = pre @ [ev] \<and> (\<forall>ev \<in> set pre. \<not> mismatched ev) \<and> e = SizeMismatch g x)"
            by simp
          then show ?thesis
          proof
            assume "\<forall>ev \<in> set evs2. \<not> mismatched ev"
            then have "\<forall>ev \<in> set ?evs. \<not> mismatched ev" using pre E by auto
            then show ?thesis using Inl by simp
          next
            assume "\<exists>pre ev g x. evs2 = pre @ [ev] \<and> (\<forall>ev \<in> set pre. \<not> mismatched ev) \<and> e = SizeMismatch g x"
            then obtain p2 ev g x where p2: "evs2 = p2 @ [ev]" "\<forall>ev \<in> set p2. \<not> mismatched ev" "e = SizeMismatch g x"
              by blast
            then have "?evs = (pre @ [?E] @ p2) @ [ev] \<and> (\<forall>ev \<in> set (pre @ [?E] @ p2). \<not> mismatched ev)"
              using pre E by auto
            then show ?thesis using Inl p2(3) by (simp only: sum.case) blast
          qed
        qed
        from 1 2 3 4 5 show ?thesis by blast
      qed
    qed
  qed
qed


lemma upsert_loop_done: "\<not> i < length pb \<Longrightarrow> upsert_loop D pb i n s = (Inr n, s)"
  by (subst upsert_loop.simps) simp

lemma upsert_loop_step:
  "i < length pb \<Longrightarrow> upsert_loop D pb i n s =
     (case withRetry (upsert_call D (pb ! i)) (''upsert-'' @ dec (i + 1) @ ''/'' @ dec (length pb)) 4 s of
           (Inl e, s) \<Rightarrow> (Inl e, s)
         | (Inr u, s) \<Rightarrow> upsert_loop D pb (i + 1) (n + length (pb ! i)) s)"
  by (subst upsert_loop.simps) simp

lemma upsert_loop_trace:
  "upsert_loop D pb i n s = (r, s') \<Longrightarrow>
     \<exists>evs. trace s' = trace s @ evs \<and> (\<forall>ev \<in> set evs. \<not> mismatched ev)
          \<and> set (upserted_points evs) \<subseteq> set (concat pb) \<and> embed_inputs evs = []"
proof (induction D pb i n s arbitrary: r s' rule: upsert_loop.induct)
  case (1 D pb i n s)
  show ?case
  proof (cases "i < length pb")
    case False
    with "1.prems" have "s' = s" by (simp add: upsert_loop_done)
    then show ?thesis by (intro exI[of _ "[]"]) simp
  next
    case True
    let ?label = "''upsert-'' @ dec (i + 1) @ ''/'' @ dec (length pb)"
    obtain r1 s1 where w: "withRetry (upsert_call D (pb ! i)) ?label 4 s = (r1, s1)"
      by (cases "withRetry (upsert_call D (pb ! i)) ?label 4 s")
    from withRetry_upsert[OF w] obtain evs1 where
      e1: "trace s1 = trace s @ evs1" "\<forall>ev \<in> set evs1. \<not> mismatched ev"
          "set (upserted_points evs1) \<subseteq> set (pb ! i)" "embed_inputs evs1 = []"
      by blast
    have sub: "set (pb ! i) \<subseteq> set (concat pb)" using True by (auto intro!: bexI[of _ "pb ! i"])
    show ?thesis
    proof (cases r1)
      case (Inl e)
      with "1.prems" True w have "s' = s1" by (simp add: upsert_loop_step)
      then show ?thesis using e1 sub by (intro exI[of _ evs1]) auto
    next
      case (Inr u)
      with "1.prems" True w have rec: "upsert_loop D pb (i + 1) (n + length (pb ! i)) s1 = (r, s')"
        by (simp add: upsert_loop_step)
      from "1.IH"[OF True w[symmetric] _ rec] Inr
      obtain evs2 where e2: "trace s' = trace s1 @ evs2" "\<forall>ev \<in> set evs2. \<not> mismatched ev"
          "set (upserted_points evs2) \<subseteq> set (concat pb)" "embed_inputs evs2 = []"
        by auto
      show ?thesis using e1 e2 sub
        by (intro exI[of _ "evs1 @ evs2"]) (auto simp: upserted_points_append embed_inputs_append)
    qed
  qed
qed


lemma main_load_fails:
  "loadMarkdownDocs D dir = Inl e \<Longrightarrow> main D dir w = Some (Inl e, \<lparr>world = w, trace = []\<rparr>)"
  by (simp add: main_def)

lemma main_no_docs:
  "loadMarkdownDocs D dir = Inr [] \<Longrightarrow>
   main D dir w = Some (Inr (), \<lparr>world = w, trace = [Warn ''No .md files in ./assets'']\<rparr>)"
  by (simp add: main_def console_warn_def)

lemma main_no_chunks:
  "loadMarkdownDocs D dir = Inr docs \<Longrightarrow> docs \<noteq> [] \<Longrightarrow>
   section_loop D (markdownNodeParser D docs) Map.empty [] = [] \<Longrightarrow>
   main D dir w = Some (Inr (), \<lparr>world = w, trace =
      [Warn ''No non-empty chunks produced. Check your Markdown and splitter settings.'']\<rparr>)"
  by (simp add: main_def console_warn_def)

lemma main_run:
  assumes "loadMarkdownDocs D dir = Inr docs" "docs \<noteq> []"
    and "chunks = section_loop D (markdownNodeParser D docs) Map.empty []" "chunks \<noteq> []"
  shows "main D dir w =
     (case embed_loop D (consecutive_batches 128 (map getText chunks)) 0 [] \<lparr>world = w, trace = []\<rparr> of
        (Inl e, s) \<Rightarrow> Some (Inl e, s)
      | (Inr vectors, s) \<Rightarrow>
          if length vectors \<noteq> length chunks
          then Some (Inl (Misalignment (length vectors) (length chunks)), s)
          else (case upsert_loop D (consecutive_batches 2000 (allPoints D chunks vectors)) 0 0 s of
                  (Inl e, s) \<Rightarrow> Some (Inl e, s)
                | (Inr upserted, s) \<Rightarrow>
                    Some (Inr (), console_log
                      (''Upserted '' @ dec upserted @ '' chunks into '' @ COLLECTION
                         @ '' (flat payloads, deterministic ids).'') s)))"
  using assms
  by (simp add: main_def Let_def chunkArray_pos EMBED_BATCH_def UPSERT_BATCH_def
        split: sum.split prod.split)

lemma main_total: "\<exists>r s. main D dir w = Some (r, s)"
proof (cases "loadMarkdownDocs D dir")
  case (Inl e)
  then show ?thesis by (simp add: main_load_fails)
next
  case (Inr docs)
  show ?thesis
  proof (cases "docs = []")
    case True
    with Inr show ?thesis by (simp add: main_no_docs)
  next
    case ne: False
    show ?thesis
    proof (cases "section_loop D (markdownNodeParser D docs) Map.empty [] = []")
      case True
      with Inr ne show ?thesis by (simp add: main_no_chunks)
    next
      case False
      show ?thesis
        unfolding main_run[OF Inr ne refl False]
        by (simp split: sum.split prod.split)
    qed
  qed
qed

lemma main_trace:
  assumes "main D dir w = Some (r, s)"
  shows "(\<forall>ev \<in> set (trace s). \<not> mismatched ev) \<or>
         (\<exists>pre ev g x. trace s = pre @ [ev] \<and> (\<forall>ev \<in> set pre. \<not> mismatched ev)
             \<and> (\<forall>ev \<in> set (trace s). \<not> is_upsert ev) \<and> r = Inl (SizeMismatch g x))"
proof (cases "loadMarkdownDocs D dir")
  case (Inl e)
  with assms show ?thesis by (auto simp: main_load_fails)
next
  case (Inr docs)
  let ?chunks = "section_loop D (markdownNodeParser D docs) Map.empty []"
  let ?s0 = "\<lparr>world = w, trace = []\<rparr> :: ('a, 'b) run"
  show ?thesis
  proof (cases "docs = [] \<or> ?chunks = []")
    case True
    then show ?thesis
    proof
      assume "docs = []"
      with assms Inr show ?thesis by (auto simp: main_no_docs)
    next
      assume c: "?chunks = []"
      show ?thesis
      proof (cases "docs = []")
        case True
        with assms Inr show ?thesis by (auto simp: main_no_docs)
      next
        case False
        with assms Inr c show ?thesis by (auto simp: main_no_chunks)
      qed
    qed
  next
    case False
    then have ne: "docs \<noteq> []" "?chunks \<noteq> []" by simp_all
    note run = main_run[OF Inr ne(1) refl ne(2), of w]
    let ?tb = "consecutive_batches 128 (map getText ?chunks)"
    obtain r1 s1 where el: "embed_loop D ?tb 0 [] ?s0 = (r1, s1)"
      by (cases "embed_loop D ?tb 0 [] ?s0")
    from embed_loop_trace[OF el] obtain evs1 where
      t1: "trace s1 = evs1" and nu: "\<forall>ev \<in> set evs1. \<not> is_upsert ev"
      and c1: "case r1 of
         Inr vectors \<Rightarrow> (\<forall>ev \<in> set evs1. \<not> mismatched ev)
       | Inl e \<Rightarrow>
           (\<forall>ev \<in> set evs1. \<not> mismatched ev) \<or>
           (\<exists>pre ev g x. evs1 = pre @ [ev] \<and> (\<forall>ev \<in> set pre. \<not> mismatched ev) \<and> e = SizeMismatch g x)"
      by (auto split: sum.splits)
    show ?thesis
    proof (cases r1)
      case (Inl e)
      with assms el have "r = Inl e" "s = s1"
        by (simp_all add: run)
      then show ?thesis using c1 Inl t1 nu by auto
    next
      case vec: (Inr vectors)
      with c1 t1 have clean1: "\<forall>ev \<in> set (trace s1). \<not> mismatched ev" by simp
      show ?thesis
      proof (cases "length vectors \<noteq> length ?chunks")
        case True
        with assms el vec have "s = s1"
          by (simp add: run)
        then show ?thesis using clean1 by simp
      next
        case len: False
        let ?pb = "consecutive_batches 2000 (allPoints D ?chunks vectors)"
        obtain r2 s2 where ul: "upsert_loop D ?pb 0 0 s1 = (r2, s2)"
          by (cases "upsert_loop D ?pb 0 0 s1")
        from upsert_loop_trace[OF ul] obtain evs2 where
          t2: "trace s2 = trace s1 @ evs2" "\<forall>ev \<in> set evs2. \<not> mismatched ev"
          by blast
        have "trace s = trace s2 \<or> (\<exists>m. trace s = trace s2 @ [ConsoleLog m])"
          using assms el vec len ul
          by (auto simp: run console_log_def split: sum.splits)
        then show ?thesis using t2 clean1 by auto
      qed
    qed
  qed
qed

lemma zip_concat_aligned:
  "list_all2 (\<lambda>xs d. length xs = length d) tb ds \<Longrightarrow>
     zip (concat tb) (concat ds) = concat (map (\<lambda>(xs, d). zip xs d) (zip tb ds))
     \<and> length (concat ds) = length (concat tb)"
  by (induction rule: list_all2_induct) simp_all

lemma ok_calls_lengths:
  "list_all2 (\<lambda>xs d. length xs = length d) tb ds \<Longrightarrow> list_all (\<lambda>(xs, d). length d = length xs) (zip tb ds)"
  by (induction rule: list_all2_induct) simp_all

lemma embed_loop_aligned:
  assumes "embed_loop D tb 0 [] s = (Inr vectors, s')"
  shows "length vectors = length (concat tb)
       \<and> (\<exists>evs. trace s' = trace s @ evs
              \<and> list_all (\<lambda>(xs, d). length d = length xs) (ok_calls evs)
              \<and> zip (concat tb) vectors = concat (map (\<lambda>(xs, d). zip xs d) (ok_calls evs)))"
proof -
  from embed_loop_trace[OF assms] obtain evs ds where
    t: "trace s' = trace s @ evs" and v: "vectors = concat ds"
    and a: "list_all2 (\<lambda>xs d. length xs = length d) tb ds" and o: "ok_calls evs = zip tb ds"
    by auto
  from zip_concat_aligned[OF a] ok_calls_lengths[OF a] t v o show ?thesis by auto
qed

text \<open>
  What the upsert loop adds to the trace: no provider call, and when it succeeds the points
  of the accepted calls are the points of its batches, in order. A run that gets past the
  embedding loop has one successful provider call for every text batch, in order.
\<close>

lemma stored_points_append: "stored_points (a @ b) = stored_points a @ stored_points b"
  by (induction a rule: stored_points.induct) simp_all

lemma stored_points_no_upsert: "\<forall>ev \<in> set evs. \<not> is_upsert ev \<Longrightarrow> stored_points evs = []"
  by (induction evs rule: stored_points.induct) simp_all

lemma stored_points_upsert_fails:
  "stored_points (retry_events (UpsertCall c ps) label k (map Inl es)) = []"
  by (induction es arbitrary: k) simp_all

lemma ok_calls_upsert_events:
  "ok_calls (retry_events (UpsertCall c ps) label k rs) = []"
  by (induction "UpsertCall c ps :: error + unit \<Rightarrow> 'a event" label k rs rule: retry_events.induct) auto

lemma withRetry_upsert_stored:
  assumes "withRetry (upsert_call D ps) label tries s = (r, s1)"
  shows "\<exists>evs. trace s1 = trace s @ evs \<and> ok_calls evs = []
            \<and> set (upserted_points evs) \<subseteq> set ps
            \<and> (\<forall>u. r = Inr u \<longrightarrow> stored_points evs = ps)"
proof -
  obtain rs w' where a: "attempts (\<lambda>w. upsert D w COLLECTION ps) tries (world s) = (rs, w')"
    by (cases "attempts (\<lambda>w. upsert D w COLLECTION ps) tries (world s)")
  from assms a have r: "r = retry_outcome None rs"
    and t: "trace s1 = trace s @ retry_events (UpsertCall COLLECTION ps) label 0 rs"
    by (auto simp: withRetry_attempts[OF upsert_call_performs])
  have st: "\<forall>u. r = Inr u \<longrightarrow> stored_points (retry_events (UpsertCall COLLECTION ps) label 0 rs) = ps"
    using attempts_shape[OF a]
  proof
    assume "\<exists>es. rs = map Inl es \<and> length es = tries"
    then obtain es where es: "rs = map Inl es" by blast
    then have "\<forall>u. r \<noteq> Inr u" using r by (cases "es = []") (auto simp: retry_outcome_def last_map)
    then show ?thesis by simp
  next
    assume "\<exists>es v. rs = map Inl es @ [Inr v] \<and> length es < tries"
    then obtain es v where "rs = map Inl es @ [Inr v]" by blast
    then show ?thesis
      by (simp add: retry_events_fails_append stored_points_append stored_points_upsert_fails)
  qed
  show ?thesis
    using t st upsert_events_points[of COLLECTION ps label 0 rs]
      ok_calls_upsert_events[of COLLECTION ps label 0 rs]
    by blast
qed

lemma upsert_loop_stored:
  "upsert_loop D pb i n s = (r, s') \<Longrightarrow>
     \<exists>evs. trace s' = trace s @ evs \<and> ok_calls evs = []
          \<and> set (upserted_points evs) \<subseteq> set (concat pb)
          \<and> (\<forall>m. r = Inr m \<longrightarrow> stored_points evs = concat (drop i pb))"
proof (induction D pb i n s arbitrary: r s' rule: upsert_loop.induct)
  case (1 D pb i n s)
  show ?case
  proof (cases "i < length pb")
    case False
    with "1.prems" have "s' = s" by (simp add: upsert_loop_done)
    then show ?thesis using False by (intro exI[of _ "[]"]) simp
  next
    case True
    let ?label = "''upsert-'' @ dec (i + 1) @ ''/'' @ dec (length pb)"
    obtain r1 s1 where w: "withRetry (upsert_call D (pb ! i)) ?label 4 s = (r1, s1)"
      by (cases "withRetry (upsert_call D (pb ! i)) ?label 4 s")
    from withRetry_upsert_stored[OF w] obtain evs1 where
      e1: "trace s1 = trace s @ evs1" "ok_calls evs1 = []"
          "set (upserted_points evs1) \<subseteq> set (pb ! i)"
          "\<forall>u. r1 = Inr u \<longrightarrow> stored_points evs1 = pb ! i"
      by blast
    have sub: "set (pb ! i) \<subseteq> set (concat pb)" using True by (auto intro!: bexI[of _ "pb ! i"])
    show ?thesis
    proof (cases r1)
      case (Inl e)
      with "1.prems" True w have "s' = s1" "r = Inl e" by (simp_all add: upsert_loop_step)
      then show ?thesis using e1 sub by (intro exI[of _ evs1]) auto
    next
      case (Inr u)
      with "1.prems" True w have rec: "upsert_loop D pb (i + 1) (n + length (pb ! i)) s1 = (r, s')"
        by (simp add: upsert_loop_step)
      from "1.IH"[OF True w[symmetric] _ rec] Inr
      obtain evs2 where e2: "trace s' = trace s1 @ evs2" "ok_calls evs2 = []"
          "set (upserted_points evs2) \<subseteq> set (concat pb)"
          "\<forall>m. r = Inr m \<longrightarrow> stored_points evs2 = concat (drop (i + 1) pb)"
        by auto
      have dr: "drop i pb = pb ! i # drop (i + 1) pb" using True by (simp add: Cons_nth_drop_Suc)
      have "\<forall>m. r = Inr m \<longrightarrow> stored_points (evs1 @ evs2) = concat (drop i pb)"
        unfolding dr using e1(4) e2(4) Inr by (simp add: stored_points_append)
      then show ?thesis using e1 e2 sub
        by (intro exI[of _ "evs1 @ evs2"]) (auto simp: upserted_points_append ok_calls_append)
    qed
  qed
qed

lemma zip_fst_snd:
  "list_all2 (\<lambda>xs d. length xs = length d) tb ds \<Longrightarrow> map fst (zip tb ds) = tb \<and> map snd (zip tb ds) = ds"
  by (induction rule: list_all2_induct) simp_all


lemma main_reaches_upsert:
  assumes run: "main D dir w = Some (r, s)"
    and load: "loadMarkdownDocs D dir = Inr docs" and ne: "docs \<noteq> []"
    and chunks: "chunks = section_loop D (markdownNodeParser D docs) Map.empty []"
    and reach: "r = Inr () \<or> upserted_points (trace s) \<noteq> []"
  shows "\<exists>ds s1. list_all2 (\<lambda>xs d. length xs = length d) (consecutive_batches 128 (map getText chunks)) ds
          \<and> ok_calls (trace s) = zip (consecutive_batches 128 (map getText chunks)) ds
          \<and> embed_loop D (consecutive_batches 128 (map getText chunks)) 0 [] \<lparr>world = w, trace = []\<rparr>
              = (Inr (concat ds), s1)
          \<and> set (upserted_points (trace s)) \<subseteq> set (allPoints D chunks (concat ds))
          \<and> (r = Inr () \<longrightarrow> stored_points (trace s) = allPoints D chunks (concat ds))"
proof (cases "chunks = []")
  case True
  with run load ne chunks have "r = Inr ()"
    "trace s = [Warn ''No non-empty chunks produced. Check your Markdown and splitter settings.'']"
    by (auto simp: main_no_chunks)
  then show ?thesis using True
    by (intro exI[of _ "[]"] exI[of _ "\<lparr>world = w, trace = []\<rparr>"])
       (simp add: consecutive_batches.simps embed_loop_done allPoints_def)
next
  case False
  let ?s0 = "\<lparr>world = w, trace = []\<rparr> :: ('a, 'b) run"
  let ?tb = "consecutive_batches 128 (map getText chunks)"
  note mr = main_run[OF load ne chunks False, of w]
  obtain r1 s1 where el: "embed_loop D ?tb 0 [] ?s0 = (r1, s1)"
    by (cases "embed_loop D ?tb 0 [] ?s0")
  from embed_loop_trace[OF el] obtain evs1 where
    t1: "trace s1 = evs1" and nu: "\<forall>ev \<in> set evs1. \<not> is_upsert ev" and u1: "upserted_points evs1 = []"
    and c1: "case r1 of Inr vectors \<Rightarrow>
               (\<exists>ds. vectors = [] @ concat ds \<and> list_all2 (\<lambda>xs d. length xs = length d) (drop 0 ?tb) ds
                     \<and> ok_calls evs1 = zip (drop 0 ?tb) ds)
             | Inl e \<Rightarrow> True"
    by (auto split: sum.splits)
  show ?thesis
  proof (cases r1)
    case (Inl e)
    with run el have "r = Inl e" "s = s1" by (simp_all add: mr)
    with reach t1 u1 show ?thesis by simp
  next
    case vec: (Inr vectors)
    with c1 obtain ds where v: "vectors = concat ds"
      and a: "list_all2 (\<lambda>xs d. length xs = length d) ?tb ds" and o: "ok_calls evs1 = zip ?tb ds"
      by auto
    from zip_concat_aligned[OF a] have len: "length vectors = length chunks"
      by (simp add: v concat_consecutive_batches flip: length_concat)
    let ?pb = "consecutive_batches 2000 (allPoints D chunks vectors)"
    obtain r2 s2 where ul: "upsert_loop D ?pb 0 0 s1 = (r2, s2)"
      by (cases "upsert_loop D ?pb 0 0 s1")
    from upsert_loop_stored[OF ul] obtain evs2 where
      t2: "trace s2 = trace s1 @ evs2" and o2: "ok_calls evs2 = []"
      and u2: "set (upserted_points evs2) \<subseteq> set (concat ?pb)"
      and st2: "\<forall>m. r2 = Inr m \<longrightarrow> stored_points evs2 = concat (drop 0 ?pb)"
      by blast
    have cp: "concat ?pb = allPoints D chunks vectors" by (simp add: concat_consecutive_batches)
    have fin: "(r = Inr () \<longleftrightarrow> (\<exists>m. r2 = Inr m))
        \<and> (trace s = trace s2 \<or> (\<exists>m. trace s = trace s2 @ [ConsoleLog m]))"
      using run el vec len ul by (auto simp: mr console_log_def split: sum.splits)
    from fin t1 t2 o o2 have ok: "ok_calls (trace s) = zip ?tb ds"
      by (auto simp: ok_calls_append)
    from fin t1 t2 u1 u2 cp have up: "set (upserted_points (trace s)) \<subseteq> set (allPoints D chunks vectors)"
      by (auto simp: upserted_points_append)
    have st: "r = Inr () \<longrightarrow> stored_points (trace s) = allPoints D chunks vectors"
      using fin t1 t2 st2 cp stored_points_no_upsert[OF nu]
      by (auto simp: stored_points_append)
    from a ok el vec v up st show ?thesis by blast
  qed
qed

lemma chunk_text_shape:
  assumes "c \<in> set (section_loop D secs Map.empty [])"
  shows "\<exists>sec \<in> set secs. \<exists>n \<in> set (survivors D sec).
           fileName c = parse_name D (filePath_of sec) \<and> path c = filePath_of sec
         \<and> metadata c = metadata sec ++ metadata n
         \<and> getText c = dropWhile isWhiteSpace (fileName c) @ ''||'' @ trim (getText n)"
proof -
  from assms obtain i where i: "i < length secs" and c: "c \<in> set (section_chunks D (secs ! i) (section_number secs i))"
    by (auto simp: main_chunks)
  from c obtain j n where "(j, n) \<in> set (enumerate 1 (survivors D (secs ! i)))"
    and cc: "c = \<lparr>text' = dropWhile isWhiteSpace (parse_name D (filePath_of (secs ! i))) @ ''||'' @ trim (getText n),
                     metadata = metadata (secs ! i) ++ metadata n,
                     path = filePath_of (secs ! i), fileName = parse_name D (filePath_of (secs ! i)),
                     sectionTitle = inferSectionTitle D (getText (secs ! i)) (filePath_of (secs ! i)),
                     sectionAnchor = slugify D (inferSectionTitle D (getText (secs ! i)) (filePath_of (secs ! i))),
                     sectionIndex = section_number secs i, chunkIndex = j, source = ''kb''\<rparr>"
    unfolding section_chunks_eq by auto
  then have n: "n \<in> set (survivors D (secs ! i))" by (auto simp: in_set_enumerate_eq)
  have "secs ! i \<in> set secs" using i by simp
  then show ?thesis using n cc by (auto simp: getText_def)
qed

lemma tagged_text_stripped:
  "t = dropWhile isWhiteSpace f @ ''||'' @ trim r \<Longrightarrow>
     t \<noteq> [] \<and> trim t = t \<and> t = trim (f @ ''||'' @ trim r)
     \<and> (f = [] \<or> \<not> isWhiteSpace (hd f) \<longrightarrow> t = f @ ''||'' @ trim r)"
proof -
  assume t: "t = dropWhile isWhiteSpace f @ ''||'' @ trim r"
  have "trim t = t"
    using trim_tagged_trim[of "dropWhile isWhiteSpace f" r] by (simp add: t)
  moreover have "t = trim (f @ ''||'' @ trim r)" using trim_tagged_trim[of f r] by (simp add: t)
  moreover have "f = [] \<or> \<not> isWhiteSpace (hd f) \<Longrightarrow> dropWhile isWhiteSpace f = f"
    by (cases f) auto
  ultimately show ?thesis using t by auto
qed

lemma main_upserted:
  assumes "main D dir w = Some (r, s)" and "p \<in> set (upserted_points (trace s))"
  shows "\<exists>docs vectors. loadMarkdownDocs D dir = Inr docs
           \<and> p \<in> set (allPoints D (section_loop D (markdownNodeParser D docs) Map.empty []) vectors)"
proof (cases "loadMarkdownDocs D dir")
  case (Inl e)
  with assms show ?thesis by (auto simp: main_load_fails)
next
  case (Inr docs)
  let ?chunks = "section_loop D (markdownNodeParser D docs) Map.empty []"
  let ?s0 = "\<lparr>world = w, trace = []\<rparr> :: ('a, 'b) run"
  show ?thesis
  proof (cases "docs = []")
    case True
    with assms Inr show ?thesis by (auto simp: main_no_docs)
  next
    case ne: False
    show ?thesis
    proof (cases "?chunks = []")
      case True
      with assms Inr ne show ?thesis by (auto simp: main_no_chunks)
    next
      case False
      note run = main_run[OF Inr ne refl False, of w]
      let ?tb = "consecutive_batches 128 (map getText ?chunks)"
      obtain r1 s1 where el: "embed_loop D ?tb 0 [] ?s0 = (r1, s1)"
        by (cases "embed_loop D ?tb 0 [] ?s0")
      from embed_loop_trace[OF el] have u1: "upserted_points (trace s1) = []" by auto
      show ?thesis
      proof (cases r1)
        case (Inl e)
        with assms el u1 show ?thesis by (auto simp: run)
      next
        case vec: (Inr vectors)
        show ?thesis
        proof (cases "length vectors \<noteq> length ?chunks")
          case True
          with assms el vec u1 show ?thesis by (auto simp: run)
        next
          case len: False
          let ?pb = "consecutive_batches 2000 (allPoints D ?chunks vectors)"
          obtain r2 s2 where ul: "upsert_loop D ?pb 0 0 s1 = (r2, s2)"
            by (cases "upsert_loop D ?pb 0 0 s1")
          from upsert_loop_trace[OF ul] obtain evs2 where
            t2: "trace s2 = trace s1 @ evs2" "set (upserted_points evs2) \<subseteq> set (concat ?pb)"
            by blast
          have "trace s = trace s2 \<or> (\<exists>m. trace s = trace s2 @ [ConsoleLog m])"
            using assms el vec len ul
            by (auto simp: run console_log_def split: sum.splits)
          then have "upserted_points (trace s) = upserted_points evs2"
            using t2(1) u1 by (auto simp: upserted_points_append)
          with assms(2) t2(2) have "p \<in> set (allPoints D ?chunks vectors)"
            by (auto simp: concat_consecutive_batches)
          with Inr show ?thesis by blast
        qed
      qed
    qed
  qed
qed

lemma main_embedded:
  assumes "main D dir w = Some (r, s)" and "xs \<in> set (embed_inputs (trace s))" and "t \<in> set xs"
  shows "\<exists>docs. loadMarkdownDocs D dir = Inr docs
           \<and> t \<in> getText ` set (section_loop D (markdownNodeParser D docs) Map.empty [])"
proof (cases "loadMarkdownDocs D dir")
  case (Inl e)
  with assms show ?thesis by (auto simp: main_load_fails)
next
  case (Inr docs)
  let ?chunks = "section_loop D (markdownNodeParser D docs) Map.empty []"
  let ?s0 = "\<lparr>world = w, trace = []\<rparr> :: ('a, 'b) run"
  show ?thesis
  proof (cases "docs = []")
    case True
    with assms Inr show ?thesis by (auto simp: main_no_docs)
  next
    case ne: False
    show ?thesis
    proof (cases "?chunks = []")
      case True
      with assms Inr ne show ?thesis by (auto simp: main_no_chunks)
    next
      case False
      note run = main_run[OF Inr ne refl False, of w]
      let ?tb = "consecutive_batches 128 (map getText ?chunks)"
      obtain r1 s1 where el: "embed_loop D ?tb 0 [] ?s0 = (r1, s1)"
        by (cases "embed_loop D ?tb 0 [] ?s0")
      from embed_loop_trace[OF el] have u1: "set (embed_inputs (trace s1)) \<subseteq> set ?tb" by auto
      have "set (embed_inputs (trace s)) \<subseteq> set ?tb"
      proof (cases r1)
        case (Inl e)
        with assms el u1 show ?thesis by (auto simp: run)
      next
        case vec: (Inr vectors)
        show ?thesis
        proof (cases "length vectors \<noteq> length ?chunks")
          case True
          with assms el vec u1 show ?thesis by (auto simp: run)
        next
          case len: False
          let ?pb = "consecutive_batches 2000 (allPoints D ?chunks vectors)"
          obtain r2 s2 where ul: "upsert_loop D ?pb 0 0 s1 = (r2, s2)"
            by (cases "upsert_loop D ?pb 0 0 s1")
          from upsert_loop_trace[OF ul] obtain evs2 where
            t2: "trace s2 = trace s1 @ evs2" "embed_inputs evs2 = []"
            by blast
          have "trace s = trace s2 \<or> (\<exists>m. trace s = trace s2 @ [ConsoleLog m])"
            using assms el vec len ul
            by (auto simp: run console_log_def split: sum.splits)
          then have "embed_inputs (trace s) = embed_inputs (trace s1)"
            using t2 by (auto simp: embed_inputs_append)
          with u1 show ?thesis by simp
        qed
      qed
      with assms(2,3) have "t \<in> set (concat ?tb)" by auto
      then have "t \<in> set (map getText ?chunks)" by (simp add: concat_consecutive_batches)
      with Inr show ?thesis by auto
    qed
  qed
qed

lemma withRetry_exhausted:
  assumes p: "performs fn step mk" and w: "withRetry fn label 4 s = (Inl e, s1)"
  shows "\<exists>e1 e2 e3. trace s1 = trace s @
           [mk (Inl e1), Warn (retry_message label 0), Sleep 2000,
            mk (Inl e2), Warn (retry_message label 1), Sleep 4000,
            mk (Inl e3), Warn (retry_message label 2), Sleep 8000,
            mk (Inl e), Warn (retry_message label 3), Sleep 15000]"
proof -
  obtain rs w' where a: "attempts step 4 (world s) = (rs, w')" by (cases "attempts step 4 (world s)")
  from w a have r: "retry_outcome None rs = Inl e"
    and t: "trace s1 = trace s @ retry_events mk label 0 rs"
    by (auto simp: withRetry_attempts[OF p])
  from attempts_shape[OF a] show ?thesis
  proof
    assume "\<exists>es. rs = map Inl es \<and> length es = 4"
    then obtain es where es: "rs = map Inl es" "length es = 4" by blast
    then obtain e1 e2 e3 e4 where l: "es = [e1, e2, e3, e4]"
      by (cases es; simp; rename_tac a as; case_tac as; simp; rename_tac b bs; case_tac bs; simp;
          rename_tac c cs; case_tac cs; simp)
    with r es have "e4 = e" by (simp add: retry_outcome_def)
    then show ?thesis using t es l
      by (intro exI[of _ e1] exI[of _ e2] exI[of _ e3]) (simp add: numeral_2_eq_2 numeral_3_eq_3)
  next
    assume "\<exists>es v. rs = map Inl es @ [Inr v] \<and> length es < 4"
    then obtain es v where "rs = map Inl es @ [Inr v]" by blast
    with r show ?thesis by (simp add: retry_outcome_def)
  qed
qed

lemma withRetry_succeeded:
  assumes p: "performs fn step mk" and w: "withRetry fn label 4 s = (Inr v, s1)"
  shows "\<exists>es. length es < 4 \<and> trace s1 = trace s @ retry_events mk label 0 (map Inl es) @ [mk (Inr v)]"
proof -
  obtain rs w' where a: "attempts step 4 (world s) = (rs, w')" by (cases "attempts step 4 (world s)")
  from w a have r: "retry_outcome None rs = Inr v"
    and t: "trace s1 = trace s @ retry_events mk label 0 rs"
    by (auto simp: withRetry_attempts[OF p])
  from attempts_shape[OF a] show ?thesis
  proof
    assume "\<exists>es. rs = map Inl es \<and> length es = 4"
    then obtain es where es: "rs = map Inl es" "length es = 4" by blast
    then have "es \<noteq> []" by auto
    with r es show ?thesis by (simp add: retry_outcome_def last_map)
  next
    assume "\<exists>es v. rs = map Inl es @ [Inr v] \<and> length es < 4"
    then obtain es v' where es: "rs = map Inl es @ [Inr v']" "length es < 4" by blast
    with r have "v' = v" by (simp add: retry_outcome_def)
    with es t show ?thesis by (auto simp: retry_events_fails_append)
  qed
qed

lemma main_propagates:
  assumes "loadMarkdownDocs D dir = Inr docs" "docs \<noteq> []"
    and "chunks = section_loop D (markdownNodeParser D docs) Map.empty []" "chunks \<noteq> []"
  shows "(embed_loop D (consecutive_batches 128 (map getText chunks)) 0 [] \<lparr>world = w, trace = []\<rparr> = (Inl e, s1)
            \<longrightarrow> main D dir w = Some (Inl e, s1))
       \<and> (embed_loop D (consecutive_batches 128 (map getText chunks)) 0 [] \<lparr>world = w, trace = []\<rparr> = (Inr vectors, s1)
          \<and> upsert_loop D (consecutive_batches 2000 (allPoints D chunks vectors)) 0 0 s1 = (Inl e, s2)
            \<longrightarrow> main D dir w = Some (Inl e, s2))"
proof (intro conjI impI)
  assume "embed_loop D (consecutive_batches 128 (map getText chunks)) 0 [] \<lparr>world = w, trace = []\<rparr> = (Inl e, s1)"
  then show "main D dir w = Some (Inl e, s1)" by (simp add: main_run[OF assms])
next
  assume a: "embed_loop D (consecutive_batches 128 (map getText chunks)) 0 [] \<lparr>world = w, trace = []\<rparr> = (Inr vectors, s1)
          \<and> upsert_loop D (consecutive_batches 2000 (allPoints D chunks vectors)) 0 0 s1 = (Inl e, s2)"
  then have "length vectors = length chunks"
    using embed_loop_aligned[of D "consecutive_batches 128 (map getText chunks)" "\<lparr>world = w, trace = []\<rparr>" vectors s1]
    by (simp add: concat_consecutive_batches)
  with a show "main D dir w = Some (Inl e, s2)" by (simp add: main_run[OF assms])
qed

lemma chunk_text_stripped:
  assumes "c \<in> set (section_loop D secs Map.empty [])"
  shows "getText c \<noteq> [] \<and> trim (getText c) = getText c"
proof -
  from chunk_text_shape[OF assms] obtain n :: node where
    "getText c = dropWhile isWhiteSpace (fileName c) @ ''||'' @ trim (getText n)" by blast
  from tagged_text_stripped[OF this] show ?thesis by blast
qed

lemma payload_of_text:
  "metadata c ''text'' = None \<Longrightarrow> text' (payload_of c) = getText c"
  by (simp add: payload_of_def)

lemma payload_of_metadata: "metadata (payload_of c) = metadata c"
  by (simp add: payload_of_def)

subsection \<open>Concrete runs\<close>

lemma dec_values:
  "dec 0 = ''0''" "dec 1 = ''1''" "dec (Suc 0) = ''1''" "dec 2 = ''2''" "dec 3 = ''3''" "dec 4 = ''4''"
  "dec 2000 = ''2000''" "dec 4000 = ''4000''" "dec 8000 = ''8000''" "dec 15000 = ''15000''"
  by (simp_all add: dec.simps digit_def)

lemma example_deps_sel:
  "v5 example_deps = (\<lambda>name' ns. ns @ ''/'' @ name')"
  "extname example_deps = example_extname"
  "parse_name example_deps = example_parse_name"
  "markdownNodeParser example_deps = (\<lambda>docs. docs)"
  "sentenceSplitter example_deps = example_splitter"
  "inferSectionTitle example_deps = (\<lambda>t p. example_parse_name p)"
  "slugify example_deps = (\<lambda>t. t)"
  "embeddings_create example_deps = (\<lambda>w xs. if w = 0 then (Inl (Failure ''timeout''), Suc w)
                                    else (Inr (Some (map length xs)), Suc w))"
  "upsert example_deps = (\<lambda>w c ps. (Inr (), Suc w))"
  by (simp_all add: example_deps_def)

lemma two_sections_chunks:
  "map (\<lambda>c. (path c, sectionIndex c, chunkIndex c, getText c)) (section_loop example_deps two_sections Map.empty [])
     = [(''a.md'', 1, 1, ''a||# One''), (''a.md'', 1, 2, ''a||alpha''),
        (''a.md'', 2, 1, ''a||# Two''), (''a.md'', 2, 2, ''a||beta''),
        (''b.md'', 1, 1, ''b||gamma'')]"
  by (simp add: two_sections_def splitSection_def example_deps_sel example_splitter_def
       getText_def trim_def isWhiteSpace_def Let_def example_parse_name_def example_extname_def)

lemma one_file_docs: "loadMarkdownDocs example_deps one_file = Inr [one_doc]"
  by (simp add: loadMarkdownDocs_def one_file_def one_doc_def example_deps_sel example_extname_def)

lemma one_doc_chunks: "section_loop example_deps [one_doc] Map.empty [] = [one_chunk]"
  by (simp add: one_chunk_def one_doc_def splitSection_def example_deps_sel example_splitter_def
       getText_def trim_def isWhiteSpace_def Let_def example_parse_name_def example_extname_def)

lemma short_deps_sel:
  "v5 short_deps = v5 example_deps"
  "extname short_deps = example_extname"
  "parse_name short_deps = example_parse_name"
  "markdownNodeParser short_deps = (\<lambda>docs. docs)"
  "sentenceSplitter short_deps = example_splitter"
  "inferSectionTitle short_deps = (\<lambda>t p. example_parse_name p)"
  "slugify short_deps = (\<lambda>t. t)"
  "embeddings_create short_deps = (\<lambda>w xs. (Inr (Some []), Suc w))"
  by (simp_all add: short_deps_def example_deps_def)

lemma short_one_file_docs: "loadMarkdownDocs short_deps one_file = Inr [one_doc]"
  by (simp add: loadMarkdownDocs_def one_file_def one_doc_def short_deps_sel example_extname_def)

lemma short_one_doc_chunks: "section_loop short_deps [one_doc] Map.empty [] = [one_chunk]"
  by (simp add: one_chunk_def one_doc_def splitSection_def short_deps_sel example_splitter_def
       getText_def trim_def isWhiteSpace_def Let_def example_parse_name_def example_extname_def)

lemma one_chunk_batches: "consecutive_batches 128 (map getText [one_chunk]) = [ [''a||hello''] ]"
  by (simp add: consecutive_batches.simps one_chunk_def getText_def)

lemma short_run:
  "main short_deps one_file 0 =
     Some (Inl (SizeMismatch 0 1), \<lparr>world = 1, trace = [EmbedCall [''a||hello''] (Inr (Some []))]\<rparr>)"
proof -
  have ne: "[one_doc] \<noteq> []" "[one_chunk] \<noteq> []" by simp_all
  have c: "[one_chunk] = section_loop short_deps (markdownNodeParser short_deps [one_doc]) Map.empty []"
    by (simp only: short_deps_sel short_one_doc_chunks)
  have r: "withRetry (embed_call short_deps [''a||hello'']) ''embed-batch-1/1'' 4 \<lparr>world = 0, trace = []\<rparr>
       = (Inr (Some []), \<lparr>world = 1, trace = [EmbedCall [''a||hello''] (Inr (Some []))]\<rparr>)"
    by (simp add: withRetry_def withRetry_loop.simps embed_call_def short_deps_sel)
  have e: "embed_loop short_deps [ [''a||hello''] ] 0 [] \<lparr>world = 0, trace = []\<rparr>
       = (Inl (SizeMismatch 0 1), \<lparr>world = 1, trace = [EmbedCall [''a||hello''] (Inr (Some []))]\<rparr>)"
    by (simp add: embed_loop_step dec_values r)
  show ?thesis
    unfolding main_run[OF short_one_file_docs ne(1) c ne(2)] one_chunk_batches e by simp
qed

lemma dec_Suc_values:
  "dec (Suc (Suc 0)) = ''2''" "dec (Suc (Suc (Suc 0))) = ''3''" "dec (Suc (Suc (Suc (Suc 0)))) = ''4''"
proof -
  have "Suc (Suc 0) = 2" "Suc (Suc (Suc 0)) = 3" "Suc (Suc (Suc (Suc 0))) = 4" by simp_all
  then show "dec (Suc (Suc 0)) = ''2''" "dec (Suc (Suc (Suc 0))) = ''3''" "dec (Suc (Suc (Suc (Suc 0)))) = ''4''"
    by (simp_all only: dec_values)
qed

lemma example_retry:
  "withRetry (embed_call example_deps [''a||hello'']) ''embed-batch-1/1'' 4 \<lparr>world = 0, trace = []\<rparr>
     = (Inr (Some [8]), \<lparr>world = 2, trace = take 4 example_trace\<rparr>)"
  by (simp add: withRetry_def withRetry_loop.simps embed_call_def example_deps_sel Let_def
        console_warn_def setTimeout_def dec_values example_trace_def)

lemma example_embed:
  "embed_loop example_deps [ [''a||hello''] ] 0 [] \<lparr>world = 0, trace = []\<rparr>
     = (Inr [8], \<lparr>world = 2, trace = take 4 example_trace\<rparr>)"
  by (simp add: embed_loop_step embed_loop_done dec_values example_retry)

lemma example_points: "allPoints example_deps [one_chunk] [8] = [one_point]"
  by (simp add: allPoints_def payload_of_def stableId_def id_name_def one_chunk_def one_point_def
        example_deps_sel getText_def dec_values)

lemma example_upsert:
  "upsert_loop example_deps [ [one_point] ] 0 0 \<lparr>world = 2, trace = t\<rparr>
     = (Inr 1, \<lparr>world = 3, trace = t @ [UpsertCall COLLECTION [one_point] (Inr ())]\<rparr>)"
  by (simp add: upsert_loop_step upsert_loop_done withRetry_def withRetry_loop.simps upsert_call_def
        example_deps_sel)

lemma example_run:
  "main example_deps one_file 0 = Some (Inr (), \<lparr>world = 3, trace = example_trace\<rparr>)"
proof -
  have ne: "[one_doc] \<noteq> []" "[one_chunk] \<noteq> []" by simp_all
  have c: "[one_chunk] = section_loop example_deps (markdownNodeParser example_deps [one_doc]) Map.empty []"
    by (simp only: example_deps_sel one_doc_chunks)
  have b: "consecutive_batches 2000 [one_point] = [ [one_point] ]"
    by (simp add: consecutive_batches.simps)
  show ?thesis
    unfolding main_run[OF one_file_docs ne(1) c ne(2)] one_chunk_batches example_embed
    by (simp add: example_points b example_upsert console_log_def dec_values COLLECTION_def example_trace_def)
qed

lemma failing_deps_sel:
  "v5 failing_deps = v5 example_deps"
  "extname failing_deps = example_extname"
  "parse_name failing_deps = example_parse_name"
  "markdownNodeParser failing_deps = (\<lambda>docs. docs)"
  "sentenceSplitter failing_deps = example_splitter"
  "inferSectionTitle failing_deps = (\<lambda>t p. example_parse_name p)"
  "slugify failing_deps = (\<lambda>t. t)"
  "embeddings_create failing_deps = (\<lambda>w xs. (Inl (Failure ''down''), Suc w))"
  "upsert failing_deps = (\<lambda>w c ps. (Inl (Failure ''down''), Suc w))"
  by (simp_all add: failing_deps_def example_deps_def)

lemma failing_one_file_docs: "loadMarkdownDocs failing_deps one_file = Inr [one_doc]"
  by (simp add: loadMarkdownDocs_def one_file_def one_doc_def failing_deps_sel example_extname_def)

lemma failing_one_doc_chunks: "section_loop failing_deps [one_doc] Map.empty [] = [one_chunk]"
  by (simp add: one_chunk_def one_doc_def splitSection_def failing_deps_sel example_splitter_def
       getText_def trim_def isWhiteSpace_def Let_def example_parse_name_def example_extname_def)

lemma failing_retry:
  "withRetry (embed_call failing_deps [''a||hello'']) ''embed-batch-1/1'' 4 \<lparr>world = 0, trace = []\<rparr>
     = (Inl (Failure ''down''), \<lparr>world = 4, trace = failing_trace\<rparr>)"
  by (simp add: withRetry_def withRetry_loop.simps embed_call_def failing_deps_sel Let_def
        console_warn_def setTimeout_def dec_values dec_Suc_values failing_trace_def)

lemma failing_run:
  "main failing_deps one_file 0 = Some (Inl (Failure ''down''), \<lparr>world = 4, trace = failing_trace\<rparr>)"
proof -
  have ne: "[one_doc] \<noteq> []" "[one_chunk] \<noteq> []" by simp_all
  have c: "[one_chunk] = section_loop failing_deps (markdownNodeParser failing_deps [one_doc]) Map.empty []"
    by (simp only: failing_deps_sel failing_one_doc_chunks)
  have e: "embed_loop failing_deps [ [''a||hello''] ] 0 [] \<lparr>world = 0, trace = []\<rparr>
       = (Inl (Failure ''down''), \<lparr>world = 4, trace = failing_trace\<rparr>)"
    by (simp add: embed_loop_step dec_values failing_retry)
  show ?thesis
    unfolding main_run[OF failing_one_file_docs ne(1) c ne(2)] one_chunk_batches e by simp
qed

lemma two_batches_embed:
  "embed_loop example_deps [ [''ab'', ''c''], [''def''] ] 0 [] \<lparr>world = 0, trace = []\<rparr>
     = (Inr [2, 1, 3],
        \<lparr>world = 3,
           trace = [EmbedCall [''ab'', ''c''] (Inl (Failure ''timeout'')),
                    Warn ''[embed-batch-1/2] attempt 1 failed; retrying in 2000ms'',
                    Sleep 2000,
                    EmbedCall [''ab'', ''c''] (Inr (Some [2, 1])),
                    EmbedCall [''def''] (Inr (Some [3]))]\<rparr>)"
proof -
  have 1: "withRetry (embed_call example_deps [''ab'', ''c'']) ''embed-batch-1/2'' 4 \<lparr>world = 0, trace = []\<rparr>
     = (Inr (Some [2, 1]), \<lparr>world = 2, trace = [EmbedCall [''ab'', ''c''] (Inl (Failure ''timeout'')),
                    Warn ''[embed-batch-1/2] attempt 1 failed; retrying in 2000ms'',
                    Sleep 2000,
                    EmbedCall [''ab'', ''c''] (Inr (Some [2, 1]))]\<rparr>)"
    by (simp add: withRetry_def withRetry_loop.simps embed_call_def example_deps_sel Let_def
        console_warn_def setTimeout_def dec_values)
  have l: "''embed-batch-'' @ dec (0 + 1) @ ''/'' @ dec (length [ [''ab'', ''c''], [''def''] ]) = ''embed-batch-1/2''"
     "''embed-batch-'' @ dec (Suc 0 + 1) @ ''/'' @ dec (length [ [''ab'', ''c''], [''def''] ]) = ''embed-batch-2/2''"
    by (simp_all add: dec_values dec_Suc_values)
  have 2: "withRetry (embed_call example_deps [''def'']) ''embed-batch-2/2'' 4 \<lparr>world = 2, trace = t\<rparr>
     = (Inr (Some [3]), \<lparr>world = 3, trace = t @ [EmbedCall [''def''] (Inr (Some [3]))]\<rparr>)" for t
    by (simp add: withRetry_def withRetry_loop.simps embed_call_def example_deps_sel)
  have s2: "embed_loop example_deps [ [''ab'', ''c''], [''def''] ] (Suc 0) [2, Suc 0] \<lparr>world = 2, trace = t\<rparr>
      = (Inr [2, 1, 3], \<lparr>world = 3, trace = t @ [EmbedCall [''def''] (Inr (Some [3]))]\<rparr>)" for t
    by (simp add: embed_loop_step embed_loop_done dec_values dec_Suc_values 2)
  show ?thesis
    by (subst embed_loop_step, simp, simp only: l 1 nth_Cons_0) (simp add: s2)
qed

lemma store_down_deps_sel:
  "v5 store_down_deps = v5 example_deps"
  "extname store_down_deps = example_extname"
  "parse_name store_down_deps = example_parse_name"
  "markdownNodeParser store_down_deps = (\<lambda>docs. docs)"
  "sentenceSplitter store_down_deps = example_splitter"
  "inferSectionTitle store_down_deps = (\<lambda>t p. example_parse_name p)"
  "slugify store_down_deps = (\<lambda>t. t)"
  "embeddings_create store_down_deps = (\<lambda>w xs. (Inr (Some (map length xs)), Suc w))"
  "upsert store_down_deps = (\<lambda>w c ps. (Inl (Failure ''down''), Suc w))"
  by (simp_all add: store_down_deps_def example_deps_def)

lemma store_down_one_file_docs: "loadMarkdownDocs store_down_deps one_file = Inr [one_doc]"
  by (simp add: loadMarkdownDocs_def one_file_def one_doc_def store_down_deps_sel example_extname_def)

lemma store_down_one_doc_chunks: "section_loop store_down_deps [one_doc] Map.empty [] = [one_chunk]"
  by (simp add: one_chunk_def one_doc_def splitSection_def store_down_deps_sel example_splitter_def
       getText_def trim_def isWhiteSpace_def Let_def example_parse_name_def example_extname_def)

lemma store_down_embed:
  "embed_loop store_down_deps [ [''a||hello''] ] 0 [] \<lparr>world = 0, trace = []\<rparr>
     = (Inr [8], \<lparr>world = 1, trace = [EmbedCall [''a||hello''] (Inr (Some [8]))]\<rparr>)"
  by (simp add: embed_loop_step embed_loop_done withRetry_def withRetry_loop.simps embed_call_def
        store_down_deps_sel)

lemma store_down_points: "allPoints store_down_deps [one_chunk] [8] = [one_point]"
  by (simp add: allPoints_def payload_of_def stableId_def id_name_def one_chunk_def one_point_def
        store_down_deps_sel example_deps_sel getText_def dec_values)

lemma store_down_retry:
  "withRetry (upsert_call store_down_deps [one_point]) ''upsert-1/1'' 4 \<lparr>world = w, trace = t\<rparr>
     = (Inl (Failure ''down''), \<lparr>world = Suc (Suc (Suc (Suc w))), trace = t @ drop 1 store_down_trace\<rparr>)"
  by (simp add: withRetry_def withRetry_loop.simps upsert_call_def store_down_deps_sel Let_def
        console_warn_def setTimeout_def dec_values dec_Suc_values store_down_trace_def)

lemma store_down_upsert:
  "upsert_loop store_down_deps [ [one_point] ] 0 0 \<lparr>world = w, trace = t\<rparr>
     = (Inl (Failure ''down''), \<lparr>world = Suc (Suc (Suc (Suc w))), trace = t @ drop 1 store_down_trace\<rparr>)"
proof -
  have l: "''upsert-'' @ dec (0 + 1) @ ''/'' @ dec (length [ [one_point] ]) = ''upsert-1/1''"
    by (simp add: dec_values)
  show ?thesis
    by (subst upsert_loop_step, simp, simp only: l nth_Cons_0 store_down_retry) simp
qed

lemma store_down_run:
  "main store_down_deps one_file 0 = Some (Inl (Failure ''down''), \<lparr>world = 5, trace = store_down_trace\<rparr>)"
proof -
  have ne: "[one_doc] \<noteq> []" "[one_chunk] \<noteq> []" by simp_all
  have c: "[one_chunk] = section_loop store_down_deps (markdownNodeParser store_down_deps [one_doc]) Map.empty []"
    by (simp only: store_down_deps_sel store_down_one_doc_chunks)
  have b: "consecutive_batches 2000 [one_point] = [ [one_point] ]"
    by (simp add: consecutive_batches.simps)
  have t: "[EmbedCall [''a||hello''] (Inr (Some [8]))] @ drop 1 store_down_trace = store_down_trace"
    by (simp add: store_down_trace_def)
  show ?thesis
    unfolding main_run[OF store_down_one_file_docs ne(1) c ne(2)] one_chunk_batches store_down_embed
    using t by (simp add: store_down_points b store_down_upsert)
qed

lemma two_line_docs: "loadMarkdownDocs example_deps two_line_file = Inr [two_line_doc]"
  by (simp add: loadMarkdownDocs_def two_line_file_def two_line_doc_def example_deps_sel example_extname_def)

lemma two_line_chunks: "section_loop example_deps [two_line_doc] Map.empty [] = [chunk_ab, chunk_cdef]"
  by (simp add: chunk_ab_def chunk_cdef_def two_line_doc_def splitSection_def example_deps_sel
       example_splitter_def getText_def trim_def isWhiteSpace_def Let_def example_parse_name_def
       example_extname_def)

lemma two_line_batches:
  "consecutive_batches 128 (map getText [chunk_ab, chunk_cdef]) = [ [''n||ab'', ''n||cdef''] ]"
  by (simp add: consecutive_batches.simps chunk_ab_def chunk_cdef_def getText_def)

lemma two_line_retry:
  "withRetry (embed_call example_deps [''n||ab'', ''n||cdef'']) ''embed-batch-1/1'' 4 \<lparr>world = 0, trace = []\<rparr>
     = (Inr (Some [5, 7]), \<lparr>world = 2, trace = take 4 two_line_trace\<rparr>)"
  by (simp add: withRetry_def withRetry_loop.simps embed_call_def example_deps_sel Let_def
        console_warn_def setTimeout_def dec_values two_line_trace_def)

lemma two_line_embed:
  "embed_loop example_deps [ [''n||ab'', ''n||cdef''] ] 0 [] \<lparr>world = 0, trace = []\<rparr>
     = (Inr [5, 7], \<lparr>world = 2, trace = take 4 two_line_trace\<rparr>)"
  by (simp add: embed_loop_step embed_loop_done dec_values two_line_retry)

lemma two_line_points: "allPoints example_deps [chunk_ab, chunk_cdef] [5, 7] = two_points"
  by (simp add: allPoints_def payload_of_def stableId_def id_name_def chunk_ab_def chunk_cdef_def
        two_points_def example_deps_sel getText_def dec_values upt_rec)

lemma two_line_upsert:
  "upsert_loop example_deps [two_points] 0 0 \<lparr>world = 2, trace = t\<rparr>
     = (Inr 2, \<lparr>world = 3, trace = t @ [UpsertCall COLLECTION two_points (Inr ())]\<rparr>)"
  by (simp add: upsert_loop_step upsert_loop_done withRetry_def withRetry_loop.simps upsert_call_def
        example_deps_sel two_points_def)

lemma two_line_run:
  "main example_deps two_line_file 0 = Some (Inr (), \<lparr>world = 3, trace = two_line_trace\<rparr>)"
proof -
  have ne: "[two_line_doc] \<noteq> []" "[chunk_ab, chunk_cdef] \<noteq> []" by simp_all
  have c: "[chunk_ab, chunk_cdef]
             = section_loop example_deps (markdownNodeParser example_deps [two_line_doc]) Map.empty []"
    by (simp only: example_deps_sel two_line_chunks)
  have b: "consecutive_batches 2000 two_points = [two_points]"
    by (simp add: consecutive_batches.simps two_points_def)
  show ?thesis
    unfolding main_run[OF two_line_docs ne(1) c ne(2)] two_line_batches two_line_embed
    by (simp add: two_line_points b two_line_upsert console_log_def dec_values COLLECTION_def two_line_trace_def)
qed

lemma two_line_texts: "getText chunk_ab = ''n||ab''" "getText chunk_cdef = ''n||cdef''"
  by (simp_all add: chunk_ab_def chunk_cdef_def getText_def)

lemma two_line_payloads: "payload_of chunk_ab = chunk_ab" "payload_of chunk_cdef = chunk_cdef"
  by (simp_all add: payload_of_def chunk_ab_def chunk_cdef_def getText_def)

lemma two_line_calls:
  "ok_calls two_line_trace = [([''n||ab'', ''n||cdef''], [5, 7])]"
  "stored_points two_line_trace = two_points"
  "upserted_points two_line_trace = two_points"
  by (simp_all add: two_line_trace_def)

section \<open>The claims\<close>

text \<open>
  C1. The identifier of a chunk depends on the triple (path, sectionIndex, chunkIndex) only:
  the text passed to \<open>stableId\<close> has no influence, the name that is hashed under the fixed
  namespace is different for different triples, so that two chunks receive the same
  identifier exactly when their triples agree, as long as the hash does not send the two
  names to one value. The identifier of the \<open>i\<close>-th point is this \<open>stableId\<close> of the
  \<open>i\<close>-th chunk.
\<close>

theorem stableId_determined_by_position:
  assumes "h (id_name p s c) BASE_NS = h (id_name p' s' c') BASE_NS \<Longrightarrow> id_name p s c = id_name p' s' c'"
    and "i < length chunks"
  shows "stableId h p s c t = stableId h p s c t'
       \<and> (stableId h p s c t = stableId h p' s' c' u \<longleftrightarrow> p = p' \<and> s = s' \<and> c = c')
       \<and> id' (allPoints D chunks vectors ! i)
           = v5 D (id_name (path (chunks ! i)) (sectionIndex (chunks ! i)) (chunkIndex (chunks ! i))) BASE_NS"
proof -
  have "stableId h p s c t = stableId h p' s' c' u \<longleftrightarrow> p = p' \<and> s = s' \<and> c = c'"
    using assms(1) id_name_inj[of p s c p' s' c'] by (auto simp: stableId_def Let_def)
  then show ?thesis
    using assms(2) by (simp add: stableId_def allPoints_nth)
qed

theorem stableId_determined_by_position_witness:
  "stableId (v5 example_deps) ''a.md'' 1 1 ''same words'' = stableId (v5 example_deps) ''a.md'' 1 1 ''other words''
   \<and> stableId (v5 example_deps) ''a.md'' 1 1 ''same words'' \<noteq> stableId (v5 example_deps) ''b.md'' 1 1 ''same words''
   \<and> id' (allPoints example_deps
            [\<lparr>text' = ''a||same words'', metadata = Map.empty, path = ''a.md'', fileName = ''a'',
              sectionTitle = ''a'', sectionAnchor = ''a'', sectionIndex = 1, chunkIndex = 1, source = ''kb''\<rparr>]
            [10 :: nat] ! 0)
       = BASE_NS @ ''/a.md|s1|c1''"
proof -
  have h: "v5 example_deps (id_name ''a.md'' 1 1) BASE_NS = v5 example_deps (id_name ''b.md'' 1 1) BASE_NS
           \<Longrightarrow> id_name ''a.md'' 1 1 = id_name ''b.md'' 1 1"
    by (simp add: example_deps_def)
  have d: "dec (Suc 0) = ''1''" by (simp add: dec.simps digit_def)
  show ?thesis
    using stableId_determined_by_position[of "v5 example_deps" "''a.md''" 1 1 "''b.md''" 1 1 0
        "[\<lparr>text' = ''a||same words'', metadata = Map.empty, path = ''a.md'', fileName = ''a'',
              sectionTitle = ''a'', sectionAnchor = ''a'', sectionIndex = 1, chunkIndex = 1, source = ''kb''\<rparr>]"
        "''same words''" "''other words''" "''same words''" example_deps "[10]", OF h]
    by (simp add: example_deps_def id_name_def stableId_def d)
qed

text \<open>
  C10. \<open>chunkArray\<close> returns for every array when the batch size is at least 1, and what it
  returns is a partition of the array into consecutive non-empty batches of at most that
  size; with a batch size of 0 or below and a non-empty array the loop runs forever.
\<close>

theorem chunkArray_terminates_iff_positive:
  "(1 \<le> sz \<longrightarrow>
      chunkArray arr sz = Some (consecutive_batches (nat sz) arr)
      \<and> concat (consecutive_batches (nat sz) arr) = arr
      \<and> (\<forall>b \<in> set (consecutive_batches (nat sz) arr). b \<noteq> [] \<and> int (length b) \<le> sz))
   \<and> (sz \<le> 0 \<and> arr \<noteq> [] \<longrightarrow> chunkArray arr sz = None)"
proof (intro conjI impI)
  assume "1 \<le> sz"
  then show "chunkArray arr sz = Some (consecutive_batches (nat sz) arr)"
    by (rule chunkArray_pos)
next
  assume "1 \<le> sz"
  then show "concat (consecutive_batches (nat sz) arr) = arr"
    by (simp add: concat_consecutive_batches)
next
  assume "1 \<le> sz"
  then show "\<forall>b \<in> set (consecutive_batches (nat sz) arr). b \<noteq> [] \<and> int (length b) \<le> sz"
    using consecutive_batches_bounds[of _ "nat sz" arr] by fastforce
next
  assume a: "sz \<le> 0 \<and> arr \<noteq> []"
  show "chunkArray arr sz = None"
  proof (cases "chunkArray arr sz")
    case None
    then show ?thesis .
  next
    case (Some r)
    then have "chunkArray_loop arr sz 0 [] = Some r" by (simp add: chunkArray_def)
    from chunkArray_loop_Some[OF this] a show ?thesis by simp
  qed
qed

theorem chunkArray_terminates_iff_positive_witness:
  "chunkArray [1, 2, 3 :: nat] 2 = Some [ [1, 2], [3] ]
   \<and> chunkArray [1 :: nat] 0 = None
   \<and> chunkArray [1 :: nat] (- 1) = None"
  using chunkArray_terminates_iff_positive[of 2 "[1, 2, 3 :: nat]"]
        chunkArray_terminates_iff_positive[of 0 "[1 :: nat]"]
        chunkArray_terminates_iff_positive[of "- 1" "[1 :: nat]"]
  by (simp add: consecutive_batches.simps)

text \<open>
  C3. The chunks of a run are the chunks of its sections, one section after the other.
  Within one section the chunks that survive are the chunks of the splitter that are not
  blank after trimming, in split order, and their chunkIndex values are 1, 2, ..., N, where
  N is the number of these chunks: blank chunks are dropped before the numbering.
\<close>

theorem chunkIndex_contiguous_per_section:
  "section_loop D secs Map.empty [] =
     concat (map (\<lambda>i. section_chunks D (secs ! i) (section_number secs i)) [0..<length secs])
   \<and> map chunkIndex (section_chunks D sec k) =
       [1 ..< Suc (length (filter (\<lambda>n. trim (getText n) \<noteq> [])
                             (sentenceSplitter D [\<lparr>text' = getText sec, metadata = metadata sec\<rparr>])))]
   \<and> map getText (section_chunks D sec k) =
       map (\<lambda>n. dropWhile isWhiteSpace (parse_name D (filePath_of sec)) @ ''||'' @ trim (getText n))
         (filter (\<lambda>n. trim (getText n) \<noteq> [])
            (sentenceSplitter D [\<lparr>text' = getText sec, metadata = metadata sec\<rparr>]))"
  using main_chunks[of D secs] chunkIndex_section_chunks[of D sec k] getText_section_chunks[of D sec k]
  by (simp only: survivors_def simp_thms)

theorem chunkIndex_contiguous_per_section_witness:
  "map chunkIndex (section_chunks example_deps (two_sections ! 0) 1) = [1, 2]
   \<and> map getText (survivors example_deps (two_sections ! 0)) = [''# One'', ''alpha'']
   \<and> map getText (sentenceSplitter example_deps
          [\<lparr>text' = getText (two_sections ! 0), metadata = metadata (two_sections ! 0)\<rparr>])
       = [''# One'', ''  '', ''alpha'']"
proof -
  have s: "map getText (sentenceSplitter example_deps
          [\<lparr>text' = getText (two_sections ! 0), metadata = metadata (two_sections ! 0)\<rparr>])
       = [''# One'', ''  '', ''alpha'']"
    by (simp add: two_sections_def example_deps_sel example_splitter_def getText_def)
  have v: "map getText (survivors example_deps (two_sections ! 0)) = [''# One'', ''alpha'']"
    by (simp add: survivors_def two_sections_def example_deps_sel example_splitter_def getText_def
          trim_def isWhiteSpace_def)
  then have "length (survivors example_deps (two_sections ! 0)) = 2"
    using length_map[of getText "survivors example_deps (two_sections ! 0)"] by simp
  with chunkIndex_contiguous_per_section[of example_deps two_sections "two_sections ! 0" 1]
  have "map chunkIndex (section_chunks example_deps (two_sections ! 0) 1) = [1, 2]"
    by (simp add: upt_conv_Cons survivors_def)
  with s v show ?thesis by simp
qed

text \<open>
  C8. The number of a section is the number of sections of the same file (the same path in
  its metadata) up to and including it: 1 for the first section of every file, one more for
  each following section of that file. Every chunk of the section carries this number as its
  sectionIndex together with the path, and the chunkIndex values of every section start
  again at 1.
\<close>

theorem sectionIndex_restarts_per_file:
  "section_loop D secs Map.empty [] =
     concat (map (\<lambda>i. section_chunks D (secs ! i) (section_number secs i)) [0..<length secs])
   \<and> (i < length secs \<longrightarrow>
        section_number secs i =
          Suc (length (filter (\<lambda>s. filePath_of s = filePath_of (secs ! i)) (take i secs))))
   \<and> (\<forall>c \<in> set (section_chunks D sec k). sectionIndex c = k \<and> path c = filePath_of sec)
   \<and> map chunkIndex (section_chunks D sec k) = [1 ..< Suc (length (section_chunks D sec k))]"
proof -
  have "length (section_chunks D sec k) = length (survivors D sec)"
    by (simp add: section_chunks_eq)
  then show ?thesis
    using main_chunks[of D secs] section_number_Suc[of i secs] section_chunks_fields[of _ D sec k]
      chunkIndex_section_chunks[of D sec k]
    by simp
qed

theorem sectionIndex_restarts_per_file_witness:
  "map (\<lambda>c. (path c, sectionIndex c, chunkIndex c, getText c))
       (concat (map (\<lambda>i. section_chunks example_deps (two_sections ! i) (section_number two_sections i))
                  [0..<length two_sections]))
     = [(''a.md'', 1, 1, ''a||# One''), (''a.md'', 1, 2, ''a||alpha''),
        (''a.md'', 2, 1, ''a||# Two''), (''a.md'', 2, 2, ''a||beta''),
        (''b.md'', 1, 1, ''b||gamma'')]
   \<and> (1 :: nat) < length two_sections
   \<and> section_number two_sections 1 = 2"
proof -
  have l: "(1 :: nat) < length two_sections" by (simp add: two_sections_def)
  from sectionIndex_restarts_per_file[of example_deps two_sections 1 "two_sections ! 0" 1]
  have e: "section_loop example_deps two_sections Map.empty [] =
     concat (map (\<lambda>i. section_chunks example_deps (two_sections ! i) (section_number two_sections i))
               [0..<length two_sections])"
    and n: "section_number two_sections 1 =
          Suc (length (filter (\<lambda>s. filePath_of s = filePath_of (two_sections ! 1)) (take 1 two_sections)))"
    using l by blast+
  have "section_number two_sections 1 = 2"
    unfolding n by (simp add: two_sections_def filePath_of_def)
  with l two_sections_chunks show ?thesis unfolding e by simp
qed

text \<open>
  C6. When no eligible document is loaded, and when documents are loaded but no chunk is
  produced, the run prints one warning and ends with exit status 0; the trace holds nothing
  but the warning and the world state is untouched, so neither the embedding provider nor
  the vector store is called.
\<close>

theorem empty_input_exits_cleanly:
  "(loadMarkdownDocs D dir = Inr [] \<longrightarrow>
      process D dir w = Some (0, \<lparr>world = w, trace = [Warn ''No .md files in ./assets'']\<rparr>))
   \<and> (loadMarkdownDocs D dir = Inr docs \<and> docs \<noteq> []
        \<and> section_loop D (markdownNodeParser D docs) Map.empty [] = [] \<longrightarrow>
      process D dir w = Some (0, \<lparr>world = w, trace =
        [Warn ''No non-empty chunks produced. Check your Markdown and splitter settings.'']\<rparr>))"
proof (intro conjI impI)
  assume "loadMarkdownDocs D dir = Inr []"
  then have "main D dir w = Some (Inr (), \<lparr>world = w, trace = [Warn ''No .md files in ./assets'']\<rparr>)"
    by (rule main_no_docs)
  then show "process D dir w = Some (0, \<lparr>world = w, trace = [Warn ''No .md files in ./assets'']\<rparr>)"
    by (simp add: process_def)
next
  assume a: "loadMarkdownDocs D dir = Inr docs \<and> docs \<noteq> []
        \<and> section_loop D (markdownNodeParser D docs) Map.empty [] = []"
  then have "main D dir w = Some (Inr (), \<lparr>world = w, trace =
        [Warn ''No non-empty chunks produced. Check your Markdown and splitter settings.'']\<rparr>)"
    using main_no_chunks[of D dir docs w] by blast
  then show "process D dir w = Some (0, \<lparr>world = w, trace =
        [Warn ''No non-empty chunks produced. Check your Markdown and splitter settings.'']\<rparr>)"
    by (simp add: process_def)
qed

theorem empty_input_exits_cleanly_witness:
  "loadMarkdownDocs example_deps empty_dir = Inr []
   \<and> process example_deps empty_dir 0 = Some (0, \<lparr>world = 0, trace = [Warn ''No .md files in ./assets'']\<rparr>)
   \<and> loadMarkdownDocs example_deps blank_file
        = Inr [\<lparr>text' = '' '' @ [CHR 0x0A] @ ''  '',
                metadata = [''path'' \<mapsto> ''a.md'', ''fileName'' \<mapsto> ''a.md'', ''ext'' \<mapsto> ''.md'']\<rparr>]
   \<and> process example_deps blank_file 0 = Some (0, \<lparr>world = 0, trace =
        [Warn ''No non-empty chunks produced. Check your Markdown and splitter settings.'']\<rparr>)"
proof -
  let ?doc = "\<lparr>text' = '' '' @ [CHR 0x0A] @ ''  '',
                metadata = [''path'' \<mapsto> ''a.md'', ''fileName'' \<mapsto> ''a.md'', ''ext'' \<mapsto> ''.md'']\<rparr>"
  have 1: "loadMarkdownDocs example_deps empty_dir = Inr []"
    by (simp add: loadMarkdownDocs_def empty_dir_def)
  have 2: "loadMarkdownDocs example_deps blank_file = Inr [?doc]"
    by (simp add: loadMarkdownDocs_def blank_file_def example_deps_sel example_extname_def)
  have 3: "section_loop example_deps (markdownNodeParser example_deps [?doc]) Map.empty [] = []"
    by (simp add: splitSection_def example_deps_sel example_splitter_def
          getText_def trim_def isWhiteSpace_def Let_def)
  show ?thesis
    using empty_input_exits_cleanly[of example_deps empty_dir 0 "[?doc]"]
          empty_input_exits_cleanly[of example_deps blank_file 0 "[?doc]"] 1 2 3
    by simp
qed

text \<open>
  C2. Every run returns. When the provider answers a batch with a number of vectors other
  than the number of texts of the batch (or without data), the run is rejected with the size
  mismatch error, this answer is the last event of the run (the request is not repeated and
  nothing else is called), the trace holds no upsert call, and the exit status is 1.
\<close>

theorem size_mismatch_aborts_before_upsert:
  "\<exists>r s. main D dir w = Some (r, s) \<and>
     (\<forall>i < length (trace s). mismatched (trace s ! i) \<longrightarrow>
        Suc i = length (trace s)
        \<and> (\<forall>ev \<in> set (trace s). \<not> is_upsert ev)
        \<and> (\<exists>g x. r = Inl (SizeMismatch g x)
                 \<and> process D dir w = Some (1, console_error (SizeMismatch g x) s)))"
proof -
  from main_total[of D dir w] obtain r s where m: "main D dir w = Some (r, s)" by blast
  have "Suc i = length (trace s) \<and> (\<forall>ev \<in> set (trace s). \<not> is_upsert ev)
        \<and> (\<exists>g x. r = Inl (SizeMismatch g x) \<and> process D dir w = Some (1, console_error (SizeMismatch g x) s))"
    if i: "i < length (trace s)" "mismatched (trace s ! i)" for i
  proof -
    from i have "\<not> (\<forall>ev \<in> set (trace s). \<not> mismatched ev)" using nth_mem by blast
    with main_trace[OF m] obtain pre ev g x where
      p: "trace s = pre @ [ev]" "\<forall>ev \<in> set pre. \<not> mismatched ev"
         "\<forall>ev \<in> set (trace s). \<not> is_upsert ev" "r = Inl (SizeMismatch g x)"
      by blast
    have "\<not> i < length pre"
    proof
      assume "i < length pre"
      then have "trace s ! i \<in> set pre" using p(1) by (simp add: nth_append)
      with p(2) i(2) show False by blast
    qed
    with i(1) p(1) have "Suc i = length (trace s)" by simp
    moreover have "process D dir w = Some (1, console_error (SizeMismatch g x) s)"
      using m p(4) by (simp add: process_def)
    ultimately show ?thesis using p(3,4) by blast
  qed
  with m show ?thesis by blast
qed

theorem size_mismatch_aborts_before_upsert_witness:
  "main short_deps one_file 0 =
     Some (Inl (SizeMismatch 0 1), \<lparr>world = 1, trace = [EmbedCall [''a||hello''] (Inr (Some []))]\<rparr>)
   \<and> mismatched (EmbedCall [''a||hello''] (Inr (Some [])) :: nat event)
   \<and> process short_deps one_file 0 =
       Some (1, \<lparr>world = 1, trace = [EmbedCall [''a||hello''] (Inr (Some [])), ConsoleError (SizeMismatch 0 1)]\<rparr>)"
  using size_mismatch_aborts_before_upsert[of short_deps one_file 0]
  by (auto simp: short_run console_error_def)

text \<open>
  C4. With a batch size of at least 1, \<open>chunkArray\<close> cuts a list into consecutive non-empty
  batches of at most that size whose concatenation is the list. Take a run of \<open>main\<close> on a
  directory with at least one Markdown file that ends normally or reaches the vector store,
  let \<open>chunks\<close> be the chunks it builds, \<open>calls\<close> the provider calls that were answered,
  in order, and \<open>vectors\<close> the answers of these calls one after the other. Then the inputs of
  \<open>calls\<close> are exactly the batches \<open>chunkArray\<close> makes of the chunk texts with
  \<open>EMBED_BATCH\<close>: each batch is embedded by one answered call, their concatenation is the
  list of chunk texts in order, and every answer has as many vectors as its batch has texts.
  \<open>vectors\<close> is the vector list the embedding loop of the run returns; it is as long as
  \<open>chunks\<close>, and pairing the chunk texts with it position by position gives exactly the
  pairs (input, output) of the answered calls: vector \<open>i\<close> is what the provider returned for
  the text of chunk \<open>i\<close>, none lost and none repeated. Point \<open>i\<close> carries vector \<open>i\<close> and
  the payload of chunk \<open>i\<close>; every point sent to the store is one of these points, and when
  the run ends normally the points the store accepted are exactly these points, in chunk
  order.
\<close>

theorem batching_preserves_order_and_alignment:
  assumes "main D dir w = Some (r, s)"
    and "loadMarkdownDocs D dir = Inr docs" and "docs \<noteq> []"
    and "chunks = section_loop D (markdownNodeParser D docs) Map.empty []"
    and "calls = ok_calls (trace s)"
    and "vectors = concat (map snd calls)"
    and "r = Inr () \<or> upserted_points (trace s) \<noteq> []"
  shows "(1 \<le> B \<longrightarrow>
            chunkArray xs B = Some (consecutive_batches (nat B) xs)
            \<and> concat (consecutive_batches (nat B) xs) = xs
            \<and> (\<forall>b \<in> set (consecutive_batches (nat B) xs). b \<noteq> [] \<and> int (length b) \<le> B))
       \<and> chunkArray (map getText chunks) EMBED_BATCH = Some (map fst calls)
       \<and> concat (map fst calls) = map getText chunks
       \<and> (\<forall>b \<in> set (map fst calls). b \<noteq> [] \<and> int (length b) \<le> EMBED_BATCH)
       \<and> list_all (\<lambda>(xs, d). length d = length xs) calls
       \<and> (\<exists>s1. embed_loop D (map fst calls) 0 [] \<lparr>world = w, trace = []\<rparr> = (Inr vectors, s1))
       \<and> length vectors = length chunks
       \<and> zip (map getText chunks) vectors = concat (map (\<lambda>(xs, d). zip xs d) calls)
       \<and> (\<forall>i < length chunks.
             vector (allPoints D chunks vectors ! i) = vectors ! i
             \<and> payload (allPoints D chunks vectors ! i) = payload_of (chunks ! i))
       \<and> set (upserted_points (trace s)) \<subseteq> set (allPoints D chunks vectors)
       \<and> (r = Inr () \<longrightarrow> stored_points (trace s) = allPoints D chunks vectors)"
proof -
  let ?tb = "consecutive_batches 128 (map getText chunks)"
  from main_reaches_upsert[OF assms(1-4) assms(7)] obtain ds s1 where
    a: "list_all2 (\<lambda>xs d. length xs = length d) ?tb ds"
    and o: "ok_calls (trace s) = zip ?tb ds"
    and el: "embed_loop D ?tb 0 [] \<lparr>world = w, trace = []\<rparr> = (Inr (concat ds), s1)"
    and up: "set (upserted_points (trace s)) \<subseteq> set (allPoints D chunks (concat ds))"
    and st: "r = Inr () \<longrightarrow> stored_points (trace s) = allPoints D chunks (concat ds)"
    by blast
  from zip_fst_snd[OF a] o assms(5,6) have f: "map fst calls = ?tb" and v: "vectors = concat ds"
    and c: "calls = zip ?tb ds"
    by simp_all
  have ct: "concat ?tb = map getText chunks" by (simp add: concat_consecutive_batches)
  have g: "1 \<le> B \<longrightarrow>
            chunkArray xs B = Some (consecutive_batches (nat B) xs)
            \<and> concat (consecutive_batches (nat B) xs) = xs
            \<and> (\<forall>b \<in> set (consecutive_batches (nat B) xs). b \<noteq> [] \<and> int (length b) \<le> B)"
  proof (intro impI conjI)
    assume "1 \<le> B"
    then show "chunkArray xs B = Some (consecutive_batches (nat B) xs)" by (rule chunkArray_pos)
  next
    assume "1 \<le> B"
    then show "concat (consecutive_batches (nat B) xs) = xs" by (simp add: concat_consecutive_batches)
  next
    assume "1 \<le> B"
    then show "\<forall>b \<in> set (consecutive_batches (nat B) xs). b \<noteq> [] \<and> int (length b) \<le> B"
      using consecutive_batches_bounds[of _ "nat B" xs] by fastforce
  qed
  have 1: "chunkArray (map getText chunks) EMBED_BATCH = Some (map fst calls)"
    by (simp add: f chunkArray_pos EMBED_BATCH_def)
  have 2: "concat (map fst calls) = map getText chunks" by (simp add: f ct)
  have 3: "\<forall>b \<in> set (map fst calls). b \<noteq> [] \<and> int (length b) \<le> EMBED_BATCH"
    unfolding f EMBED_BATCH_def using consecutive_batches_bounds[of _ 128 "map getText chunks"] by fastforce
  have 4: "list_all (\<lambda>(xs, d). length d = length xs) calls"
    unfolding c by (rule ok_calls_lengths[OF a])
  have 5: "\<exists>s1. embed_loop D (map fst calls) 0 [] \<lparr>world = w, trace = []\<rparr> = (Inr vectors, s1)"
    unfolding f v using el by blast
  have 6: "length vectors = length chunks"
    using zip_concat_aligned[OF a] by (simp add: v ct)
  have 7: "zip (map getText chunks) vectors = concat (map (\<lambda>(xs, d). zip xs d) calls)"
    using zip_concat_aligned[OF a] by (simp add: v c ct)
  have 8: "\<forall>i < length chunks.
             vector (allPoints D chunks vectors ! i) = vectors ! i
             \<and> payload (allPoints D chunks vectors ! i) = payload_of (chunks ! i)"
    by (simp add: allPoints_nth)
  from g 1 2 3 4 5 6 7 8 up st show ?thesis unfolding v by blast
qed

theorem batching_preserves_order_and_alignment_witness:
  "main example_deps two_line_file 0 = Some (Inr (), \<lparr>world = 3, trace = two_line_trace\<rparr>)
   \<and> loadMarkdownDocs example_deps two_line_file = Inr [two_line_doc]
   \<and> section_loop example_deps (markdownNodeParser example_deps [two_line_doc]) Map.empty []
       = [chunk_ab, chunk_cdef]
   \<and> ok_calls two_line_trace = [([''n||ab'', ''n||cdef''], [5, 7])]
   \<and> chunkArray [''ab'', ''c'', ''def''] 2 = Some [ [''ab'', ''c''], [''def''] ]
   \<and> chunkArray (map getText [chunk_ab, chunk_cdef]) EMBED_BATCH = Some [ [''n||ab'', ''n||cdef''] ]
   \<and> zip (map getText [chunk_ab, chunk_cdef]) [5, 7 :: nat] = [(''n||ab'', 5), (''n||cdef'', 7)]
   \<and> vector (allPoints example_deps [chunk_ab, chunk_cdef] [5, 7] ! 0) = 5
   \<and> vector (allPoints example_deps [chunk_ab, chunk_cdef] [5, 7] ! 1) = 7
   \<and> payload (allPoints example_deps [chunk_ab, chunk_cdef] [5, 7] ! 1) = payload_of chunk_cdef
   \<and> stored_points two_line_trace = allPoints example_deps [chunk_ab, chunk_cdef] [5, 7]"
proof -
  have c: "[chunk_ab, chunk_cdef]
             = section_loop example_deps (markdownNodeParser example_deps [two_line_doc]) Map.empty []"
    by (simp only: example_deps_sel two_line_chunks)
  have o: "[([''n||ab'', ''n||cdef''], [5, 7])]
             = ok_calls (trace \<lparr>world = 3 :: nat, trace = two_line_trace\<rparr>)"
    by (simp add: two_line_calls)
  have v: "[5, 7 :: nat] = concat (map snd [([''n||ab'', ''n||cdef''], [5, 7])])" by simp
  have b: "consecutive_batches 2 [''ab'', ''c'', ''def''] = [ [''ab'', ''c''], [''def''] ]"
    by (simp add: consecutive_batches.simps)
  show ?thesis
    using batching_preserves_order_and_alignment[OF two_line_run two_line_docs _ c o v,
            of 2 "[''ab'', ''c'', ''def'']"] b
    by (simp add: two_line_run two_line_docs c[symmetric] two_line_calls two_line_texts
          two_line_payloads two_line_points two_points_def All_less_Suc)
qed

text \<open>
  C5. The embedding call and the upsert call are both made through \<open>withRetry\<close> with 4
  tries, and \<open>withRetry\<close> follows the retry policy: it repeats the call until it succeeds,
  at most 4 times, and after the failed attempt number \<open>k\<close> (from 0) it warns and sleeps
  \<open>min (2000 * 2 ^ k) 15000\<close> milliseconds. When it fails, exactly four calls were made, all
  rejected, with sleeps of 2000, 4000, 8000 and 15000 ms after them, and the error is that of
  the fourth call; when it succeeds, fewer than four calls were rejected before the call that
  succeeded. A failure of \<open>withRetry\<close> ends the embedding loop and the upsert loop with this
  error, \<open>main\<close> is rejected with it, and the exit status is 1.
\<close>

theorem retry_ceiling_backoff_abort:
  "performs (embed_call D xs) (\<lambda>w. embeddings_create D w xs) (EmbedCall xs)
   \<and> performs (upsert_call D ps) (\<lambda>w. upsert D w COLLECTION ps) (UpsertCall COLLECTION ps)
   \<and> (performs fn step mk \<longrightarrow>
        withRetry fn label 4 s =
          (case attempts step 4 (world s) of
             (rs, w') \<Rightarrow> (retry_outcome None rs,
                          s\<lparr>world := w', trace := trace s @ retry_events mk label 0 rs\<rparr>))
        \<and> (\<forall>e s1. withRetry fn label 4 s = (Inl e, s1) \<longrightarrow>
              (\<exists>e1 e2 e3. trace s1 = trace s @
                 [mk (Inl e1), Warn (retry_message label 0), Sleep 2000,
                  mk (Inl e2), Warn (retry_message label 1), Sleep 4000,
                  mk (Inl e3), Warn (retry_message label 2), Sleep 8000,
                  mk (Inl e), Warn (retry_message label 3), Sleep 15000]))
        \<and> (\<forall>v s1. withRetry fn label 4 s = (Inr v, s1) \<longrightarrow>
              (\<exists>es. length es < 4
                 \<and> trace s1 = trace s @ retry_events mk label 0 (map Inl es) @ [mk (Inr v)])))
   \<and> (b < length tb
        \<and> withRetry (embed_call D (tb ! b)) (''embed-batch-'' @ dec (b + 1) @ ''/'' @ dec (length tb)) 4 s
            = (Inl e, s1) \<longrightarrow>
      embed_loop D tb b vs s = (Inl e, s1))
   \<and> (i < length pb
        \<and> withRetry (upsert_call D (pb ! i)) (''upsert-'' @ dec (i + 1) @ ''/'' @ dec (length pb)) 4 s
            = (Inl e, s1) \<longrightarrow>
      upsert_loop D pb i n s = (Inl e, s1))
   \<and> (loadMarkdownDocs D dir = Inr docs \<and> docs \<noteq> []
        \<and> chunks = section_loop D (markdownNodeParser D docs) Map.empty [] \<and> chunks \<noteq> [] \<longrightarrow>
        (embed_loop D (consecutive_batches 128 (map getText chunks)) 0 [] \<lparr>world = w, trace = []\<rparr> = (Inl e, s1)
            \<longrightarrow> main D dir w = Some (Inl e, s1))
        \<and> (embed_loop D (consecutive_batches 128 (map getText chunks)) 0 [] \<lparr>world = w, trace = []\<rparr>
              = (Inr vectors, s1)
            \<and> upsert_loop D (consecutive_batches 2000 (allPoints D chunks vectors)) 0 0 s1 = (Inl e, s2)
            \<longrightarrow> main D dir w = Some (Inl e, s2)))
   \<and> (main D dir w = Some (Inl e, s1) \<longrightarrow> process D dir w = Some (1, console_error e s1))"
proof (intro conjI)
  show "performs (embed_call D xs) (\<lambda>w. embeddings_create D w xs) (EmbedCall xs)"
    by (rule embed_call_performs)
  show "performs (upsert_call D ps) (\<lambda>w. upsert D w COLLECTION ps) (UpsertCall COLLECTION ps)"
    by (rule upsert_call_performs)
  show "performs fn step mk \<longrightarrow>
        withRetry fn label 4 s =
          (case attempts step 4 (world s) of
             (rs, w') \<Rightarrow> (retry_outcome None rs,
                          s\<lparr>world := w', trace := trace s @ retry_events mk label 0 rs\<rparr>))
        \<and> (\<forall>e s1. withRetry fn label 4 s = (Inl e, s1) \<longrightarrow>
              (\<exists>e1 e2 e3. trace s1 = trace s @
                 [mk (Inl e1), Warn (retry_message label 0), Sleep 2000,
                  mk (Inl e2), Warn (retry_message label 1), Sleep 4000,
                  mk (Inl e3), Warn (retry_message label 2), Sleep 8000,
                  mk (Inl e), Warn (retry_message label 3), Sleep 15000]))
        \<and> (\<forall>v s1. withRetry fn label 4 s = (Inr v, s1) \<longrightarrow>
              (\<exists>es. length es < 4
                 \<and> trace s1 = trace s @ retry_events mk label 0 (map Inl es) @ [mk (Inr v)]))"
    using withRetry_attempts[of fn step mk label 4 s] withRetry_exhausted[of fn step mk label s]
      withRetry_succeeded[of fn step mk label s]
    by blast
  show "b < length tb
        \<and> withRetry (embed_call D (tb ! b)) (''embed-batch-'' @ dec (b + 1) @ ''/'' @ dec (length tb)) 4 s
            = (Inl e, s1) \<longrightarrow>
      embed_loop D tb b vs s = (Inl e, s1)"
    by (simp add: embed_loop_step)
  show "i < length pb
        \<and> withRetry (upsert_call D (pb ! i)) (''upsert-'' @ dec (i + 1) @ ''/'' @ dec (length pb)) 4 s
            = (Inl e, s1) \<longrightarrow>
      upsert_loop D pb i n s = (Inl e, s1)"
    by (simp add: upsert_loop_step)
  show "loadMarkdownDocs D dir = Inr docs \<and> docs \<noteq> []
        \<and> chunks = section_loop D (markdownNodeParser D docs) Map.empty [] \<and> chunks \<noteq> [] \<longrightarrow>
        (embed_loop D (consecutive_batches 128 (map getText chunks)) 0 [] \<lparr>world = w, trace = []\<rparr> = (Inl e, s1)
            \<longrightarrow> main D dir w = Some (Inl e, s1))
        \<and> (embed_loop D (consecutive_batches 128 (map getText chunks)) 0 [] \<lparr>world = w, trace = []\<rparr>
              = (Inr vectors, s1)
            \<and> upsert_loop D (consecutive_batches 2000 (allPoints D chunks vectors)) 0 0 s1 = (Inl e, s2)
            \<longrightarrow> main D dir w = Some (Inl e, s2))"
    using main_propagates[of D dir docs chunks w e s1 vectors s2] by blast
  show "main D dir w = Some (Inl e, s1) \<longrightarrow> process D dir w = Some (1, console_error e s1)"
    by (simp add: process_def)
qed

theorem retry_ceiling_backoff_abort_witness:
  "performs (embed_call failing_deps [''a||hello'']) (\<lambda>w. embeddings_create failing_deps w [''a||hello''])
     (EmbedCall [''a||hello''])
   \<and> withRetry (embed_call failing_deps [''a||hello'']) ''embed-batch-1/1'' 4 \<lparr>world = 0, trace = []\<rparr>
       = (Inl (Failure ''down''), \<lparr>world = 4, trace = failing_trace\<rparr>)
   \<and> process failing_deps one_file 0
       = Some (1, \<lparr>world = 4, trace = failing_trace @ [ConsoleError (Failure ''down'')]\<rparr>)
   \<and> withRetry (embed_call example_deps [''a||hello'']) ''embed-batch-1/1'' 4 \<lparr>world = 0, trace = []\<rparr>
       = (Inr (Some [8]), \<lparr>world = 2, trace = take 4 example_trace\<rparr>)
   \<and> process store_down_deps one_file 0
       = Some (1, \<lparr>world = 5, trace = store_down_trace @ [ConsoleError (Failure ''down'')]\<rparr>)"
  using retry_ceiling_backoff_abort[of failing_deps "[''a||hello'']" "[one_point]"
      "embed_call failing_deps [''a||hello'']" "\<lambda>w. embeddings_create failing_deps w [''a||hello'']"
      "EmbedCall [''a||hello'']" "''embed-batch-1/1''" "\<lparr>world = 0, trace = []\<rparr>"
      0 "[ [''a||hello''] ]" "Failure ''down''" "\<lparr>world = 4, trace = failing_trace\<rparr>" "[]"
      0 "[ [one_point] ]" 0 one_file "[one_doc]" "[one_chunk]" 0 "[8]"
      "\<lparr>world = 5, trace = store_down_trace\<rparr>"]
    retry_ceiling_backoff_abort[of store_down_deps "[''a||hello'']" "[one_point]"
      "embed_call failing_deps [''a||hello'']" "\<lambda>w. embeddings_create failing_deps w [''a||hello'']"
      "EmbedCall [''a||hello'']" "''embed-batch-1/1''" "\<lparr>world = 0, trace = []\<rparr>"
      0 "[ [''a||hello''] ]" "Failure ''down''" "\<lparr>world = 5, trace = store_down_trace\<rparr>" "[]"
      0 "[ [one_point] ]" 0 one_file "[one_doc]" "[one_chunk]" 0 "[8]"
      "\<lparr>world = 5, trace = store_down_trace\<rparr>"]
  by (simp add: failing_retry failing_run example_retry store_down_run process_def console_error_def)

text \<open>
  C7. Every point that a run passes to the vector store is built from a chunk of the run
  whose text is not empty and is its own trim, so it neither begins nor ends with white
  space and is not blank. The payload of the point carries this text, unless the metadata
  the chunk inherited from the libraries has an entry named \<open>text\<close>, which the payload
  construction would put in its place.
\<close>

theorem no_blank_text_reaches_upsert:
  assumes "main D dir w = Some (r, s)" and "p \<in> set (upserted_points (trace s))"
  shows "\<exists>c. payload p = payload_of c
           \<and> getText c \<noteq> [] \<and> trim (getText c) = getText c \<and> trim (getText c) \<noteq> []
           \<and> \<not> isWhiteSpace (hd (getText c)) \<and> \<not> isWhiteSpace (last (getText c))
           \<and> (metadata (payload p) ''text'' = None \<longrightarrow>
                text' (payload p) = getText c
                \<and> text' (payload p) \<noteq> [] \<and> trim (text' (payload p)) = text' (payload p))"
proof -
  from main_upserted[OF assms] obtain docs vectors where
    p: "p \<in> set (allPoints D (section_loop D (markdownNodeParser D docs) Map.empty []) vectors)"
    by blast
  let ?chunks = "section_loop D (markdownNodeParser D docs) Map.empty []"
  from p obtain i where i: "i < length ?chunks" "p = allPoints D ?chunks vectors ! i"
    by (auto simp: in_set_conv_nth length_allPoints)
  then have pl: "payload p = payload_of (?chunks ! i)" by (simp add: allPoints_nth)
  have "?chunks ! i \<in> set ?chunks" using i(1) by simp
  from chunk_text_stripped[OF this]
  have t: "getText (?chunks ! i) \<noteq> []" "trim (getText (?chunks ! i)) = getText (?chunks ! i)"
    by simp_all
  show ?thesis
    using pl t payload_of_text[of "?chunks ! i"] stripped_ends[OF t(2) t(1)]
    by (intro exI[of _ "?chunks ! i"]) (simp add: payload_of_metadata)
qed

theorem no_blank_text_reaches_upsert_witness:
  "main example_deps one_file 0 = Some (Inr (), \<lparr>world = 3, trace = example_trace\<rparr>)
   \<and> one_point \<in> set (upserted_points (trace \<lparr>world = 3 :: nat, trace = example_trace\<rparr>))
   \<and> payload one_point = payload_of one_chunk
   \<and> metadata (payload one_point) ''text'' = None
   \<and> text' (payload one_point) = ''a||hello''
   \<and> trim (text' (payload one_point)) = ''a||hello''"
proof -
  have m: "main example_deps one_file 0 = Some (Inr (), \<lparr>world = 3, trace = example_trace\<rparr>)"
    by (rule example_run)
  have u: "one_point \<in> set (upserted_points (trace \<lparr>world = 3 :: nat, trace = example_trace\<rparr>))"
    by (simp add: example_trace_def)
  from no_blank_text_reaches_upsert[OF m u]
  have "trim (text' (payload one_point)) = text' (payload one_point)"
    by (auto simp: one_point_def one_chunk_def)
  then show ?thesis using m u
    by (simp add: one_point_def one_chunk_def payload_of_def getText_def)
qed

text \<open>
  C9, as stated, fails for a file whose base name begins with white space: for the file
  \<^verbatim>\<open>" a.md"\<close> with the content \<^verbatim>\<open>hello\<close> the fileName of the payload is \<^verbatim>\<open>" a"\<close>, and the
  text that is embedded and stored is \<^verbatim>\<open>a||hello\<close>, which does not begin with \<^verbatim>\<open>" a||"\<close>.
\<close>

theorem stored_text_prefix_counterexample:
  "getText (hd (survivors example_deps one_doc)) = ''hello''
   \<and> fileName (payload (hd (upserted_points (trace (snd (the (main example_deps one_file 0))))))) = '' a''
   \<and> text' (payload (hd (upserted_points (trace (snd (the (main example_deps one_file 0))))))) = ''a||hello''
   \<and> hd (embed_inputs (trace (snd (the (main example_deps one_file 0))))) = [''a||hello'']
   \<and> ''a||hello'' \<noteq> '' a'' @ ''||'' @ trim ''hello''"
  by (simp add: example_run example_trace_def one_point_def one_chunk_def survivors_def one_doc_def
        example_deps_sel example_splitter_def getText_def trim_def isWhiteSpace_def)

text \<open>
  C9, amended. The text of every chunk of a run is the trim of: the base name of the file
  (\<open>parse_name\<close> of the path), the separator \<open>||\<close>, and the trimmed text of a non-blank chunk
  of the splitter. That is the base name without its leading white space, then \<open>||\<close>, then
  the trimmed raw text; it begins with the base name and \<open>||\<close> whenever the base name does not
  begin with white space. Every text sent to the embedding provider is the text of such a
  chunk, and every payload sent to the vector store is the payload of such a chunk; the
  payload carries the text of the chunk unless the inherited metadata has an entry named
  \<open>text\<close>.
\<close>

theorem stored_text_is_trimmed_tagged_text:
  "(c \<in> set (section_loop D secs Map.empty []) \<longrightarrow>
      (\<exists>sec \<in> set secs. \<exists>n \<in> set (survivors D sec).
          fileName c = parse_name D (filePath_of sec)
        \<and> getText c = trim (fileName c @ ''||'' @ trim (getText n))
        \<and> getText c = dropWhile isWhiteSpace (fileName c) @ ''||'' @ trim (getText n)
        \<and> (fileName c = [] \<or> \<not> isWhiteSpace (hd (fileName c)) \<longrightarrow>
             getText c = fileName c @ ''||'' @ trim (getText n)))
      \<and> (metadata c ''text'' = None \<longrightarrow> text' (payload_of c) = getText c))
   \<and> (main D dir w = Some (r, s) \<and> xs \<in> set (embed_inputs (trace s)) \<and> t \<in> set xs \<longrightarrow>
        (\<exists>docs. loadMarkdownDocs D dir = Inr docs
               \<and> t \<in> getText ` set (section_loop D (markdownNodeParser D docs) Map.empty [])))
   \<and> (main D dir w = Some (r, s) \<and> p \<in> set (upserted_points (trace s)) \<longrightarrow>
        (\<exists>docs. loadMarkdownDocs D dir = Inr docs
               \<and> payload p \<in> payload_of ` set (section_loop D (markdownNodeParser D docs) Map.empty [])))"
proof (intro conjI impI)
  assume c: "c \<in> set (section_loop D secs Map.empty [])"
  from chunk_text_shape[OF c] obtain sec n where
    sn: "sec \<in> set secs" "n \<in> set (survivors D sec)" "fileName c = parse_name D (filePath_of sec)"
    and t: "getText c = dropWhile isWhiteSpace (fileName c) @ ''||'' @ trim (getText n)"
    by blast
  from tagged_text_stripped[OF t] t sn
  show "\<exists>sec \<in> set secs. \<exists>n \<in> set (survivors D sec).
          fileName c = parse_name D (filePath_of sec)
        \<and> getText c = trim (fileName c @ ''||'' @ trim (getText n))
        \<and> getText c = dropWhile isWhiteSpace (fileName c) @ ''||'' @ trim (getText n)
        \<and> (fileName c = [] \<or> \<not> isWhiteSpace (hd (fileName c)) \<longrightarrow>
             getText c = fileName c @ ''||'' @ trim (getText n))"
    by blast
next
  assume "metadata c ''text'' = None"
  then show "text' (payload_of c) = getText c" by (rule payload_of_text)
next
  assume "main D dir w = Some (r, s) \<and> xs \<in> set (embed_inputs (trace s)) \<and> t \<in> set xs"
  then show "\<exists>docs. loadMarkdownDocs D dir = Inr docs
               \<and> t \<in> getText ` set (section_loop D (markdownNodeParser D docs) Map.empty [])"
    using main_embedded[of D dir w r s xs t] by blast
next
  assume a: "main D dir w = Some (r, s) \<and> p \<in> set (upserted_points (trace s))"
  with main_upserted[of D dir w r s p] obtain docs vectors where
    d: "loadMarkdownDocs D dir = Inr docs"
    and p: "p \<in> set (allPoints D (section_loop D (markdownNodeParser D docs) Map.empty []) vectors)"
    by blast
  let ?chunks = "section_loop D (markdownNodeParser D docs) Map.empty []"
  from p obtain i where i: "i < length ?chunks" "p = allPoints D ?chunks vectors ! i"
    by (auto simp: in_set_conv_nth length_allPoints)
  then have "payload p = payload_of (?chunks ! i)" by (simp add: allPoints_nth)
  moreover have "?chunks ! i \<in> set ?chunks" using i(1) by simp
  ultimately show "\<exists>docs. loadMarkdownDocs D dir = Inr docs
               \<and> payload p \<in> payload_of ` set (section_loop D (markdownNodeParser D docs) Map.empty [])"
    using d by blast
qed

theorem stored_text_is_trimmed_tagged_text_witness:
  "one_chunk \<in> set (section_loop example_deps [one_doc] Map.empty [])
   \<and> fileName one_chunk = '' a''
   \<and> getText one_chunk = trim ('' a'' @ ''||'' @ trim ''hello'')
   \<and> metadata one_chunk ''text'' = None
   \<and> text' (payload_of one_chunk) = ''a||hello''
   \<and> main example_deps one_file 0 = Some (Inr (), \<lparr>world = 3, trace = example_trace\<rparr>)
   \<and> [''a||hello''] \<in> set (embed_inputs (trace \<lparr>world = 3 :: nat, trace = example_trace\<rparr>))
   \<and> one_point \<in> set (upserted_points (trace \<lparr>world = 3 :: nat, trace = example_trace\<rparr>))
   \<and> payload one_point \<in> payload_of ` set (section_loop example_deps [one_doc] Map.empty [])
   \<and> map (\<lambda>c. (fileName c, getText c)) (section_loop example_deps two_sections Map.empty [])
       = [(''a'', ''a||# One''), (''a'', ''a||alpha''), (''a'', ''a||# Two''), (''a'', ''a||beta''),
          (''b'', ''b||gamma'')]"
proof -
  have m: "main example_deps one_file 0 = Some (Inr (), \<lparr>world = 3, trace = example_trace\<rparr>)"
    by (rule example_run)
  have c: "one_chunk \<in> set (section_loop example_deps [one_doc] Map.empty [])"
    unfolding one_doc_chunks by simp
  have e: "[''a||hello''] \<in> set (embed_inputs (trace \<lparr>world = 3 :: nat, trace = example_trace\<rparr>))"
    by (simp add: example_trace_def)
  have u: "one_point \<in> set (upserted_points (trace \<lparr>world = 3 :: nat, trace = example_trace\<rparr>))"
    by (simp add: example_trace_def)
  have n: "metadata one_chunk ''text'' = None" by (simp add: one_chunk_def)
  from stored_text_is_trimmed_tagged_text[of one_chunk example_deps "[one_doc]" one_file 0 "Inr ()"
      "\<lparr>world = 3, trace = example_trace\<rparr>" "[''a||hello'']" "''a||hello''" one_point] c n m e u
  have t: "text' (payload_of one_chunk) = getText one_chunk"
    and p: "payload one_point \<in> payload_of ` set (section_loop example_deps [one_doc] Map.empty [])"
    unfolding one_file_docs example_deps_sel(4) by blast+
  have g: "getText one_chunk = ''a||hello''" "fileName one_chunk = '' a''"
    by (simp_all add: one_chunk_def getText_def)
  have tr: "trim ('' a'' @ ''||'' @ trim ''hello'') = ''a||hello''"
    by (simp add: trim_def isWhiteSpace_def)
  have two: "map (\<lambda>c. (fileName c, getText c)) (section_loop example_deps two_sections Map.empty [])
       = [(''a'', ''a||# One''), (''a'', ''a||alpha''), (''a'', ''a||# Two''), (''a'', ''a||beta''),
          (''b'', ''b||gamma'')]"
    by (simp add: two_sections_def splitSection_def example_deps_sel example_splitter_def
       getText_def trim_def isWhiteSpace_def Let_def example_parse_name_def example_extname_def)
  have f3: "getText one_chunk = trim ('' a'' @ ''||'' @ trim ''hello'')" using g(1) tr by simp
  have f5: "text' (payload_of one_chunk) = ''a||hello''" using t g(1) by simp
  from c g(2) f3 n f5 m e u p two show ?thesis by (intro conjI)
qed

end
